theory Spec2Isabelle
  imports Main "HOL-Library.Product_Lexorder"
begin

section \<open>Python values used by permutations.py and stabilizer.py\<close>

text \<open>
  A permutation is a Python dict from int to int. A dict keeps its items in insertion
  order and has no two items with the same key, so it is modelled as an association list
  whose keys are distinct (\<open>distinct (keys d)\<close>); Python's unbounded ints are \<open>int\<close>.
  Every exception the source can raise is a value of \<open>error\<close>, and a function that
  can raise returns \<open>error + 'a\<close> with \<open>Inl\<close> for the exception.
\<close>

type_synonym pdict = "(int \<times> int) list"

datatype error = ValueError string | KeyError int | IndexError | ZeroDivisionError

definition keys :: "pdict \<Rightarrow> int list" where
  "keys d = map fst d"

definition values_of :: "pdict \<Rightarrow> int list" where
  "values_of d = map snd d"

text \<open>\<open>d[k]\<close>: the value stored under \<open>k\<close>, KeyError when \<open>k\<close> is not a key.\<close>

definition getitem :: "pdict \<Rightarrow> int \<Rightarrow> error + int" where
  "getitem d k = (case map_of d k of None \<Rightarrow> Inl (KeyError k) | Some v \<Rightarrow> Inr v)"

text \<open>\<open>d[k] = v\<close>: an existing key keeps its position and takes the new value, a new
  key is appended.\<close>

fun setitem :: "pdict \<Rightarrow> int \<Rightarrow> int \<Rightarrow> pdict" where
  "setitem [] k v = [(k, v)]"
| "setitem ((k', v') # d) k v = (if k' = k then (k, v) # d else (k', v') # setitem d k v)"

text \<open>\<open>dict(pairs)\<close> and the dict comprehension \<open>{k: v for ...}\<close>: the pairs are
  stored one after the other.\<close>

definition dict_of :: "(int \<times> int) list \<Rightarrow> pdict" where
  "dict_of ps = fold (\<lambda>(k, v) d. setitem d k v) ps []"

text \<open>\<open>a == b\<close> on dicts: the same number of items, and every item of \<open>a\<close> is an
  item of \<open>b\<close>; the order of insertion plays no role.\<close>

definition dict_eq :: "pdict \<Rightarrow> pdict \<Rightarrow> bool" where
  "dict_eq a b \<longleftrightarrow> length a = length b \<and> (\<forall>(k, v) \<in> set a. map_of b k = Some v)"

text \<open>\<open>range(1, n + 1)\<close>\<close>

definition range1 :: "int \<Rightarrow> int list" where
  "range1 n = [1..n]"

section \<open>permutations.py\<close>

subsection \<open>Representation\<close>

text \<open>The ValueError of \<open>make_permutation\<close> carries a message that ends with the two
  sets; the model keeps the fixed part of the message.\<close>

definition make_permutation :: "pdict \<Rightarrow> error + pdict" where
  "make_permutation mapping =
     (if set (keys mapping) \<noteq> set (values_of mapping)
      then Inl (ValueError ''Not a valid permutation'')
      else Inr (dict_of mapping))"

definition identity :: "int \<Rightarrow> pdict" where
  "identity n = dict_of (map (\<lambda>i. (i, i)) (range1 n))"

subsection \<open>Group operations\<close>

text \<open>The comprehension \<open>{i: sigma[tau[i]] for i in tau}\<close>, item by item: the first
  failing lookup raises.\<close>

fun compose_items :: "pdict \<Rightarrow> pdict \<Rightarrow> int list \<Rightarrow> error + (int \<times> int) list" where
  "compose_items sigma tau [] = Inr []"
| "compose_items sigma tau (i # is) =
     (case getitem tau i of
        Inl e \<Rightarrow> Inl e
      | Inr j \<Rightarrow>
          (case getitem sigma j of
             Inl e \<Rightarrow> Inl e
           | Inr v \<Rightarrow>
               (case compose_items sigma tau is of
                  Inl e \<Rightarrow> Inl e
                | Inr r \<Rightarrow> Inr ((i, v) # r))))"

definition compose :: "pdict \<Rightarrow> pdict \<Rightarrow> error + pdict" where
  "compose sigma tau =
     (if set (keys sigma) \<noteq> set (keys tau)
      then Inl (ValueError ''Permutations must be defined on the same set.'')
      else (case compose_items sigma tau (keys tau) of
              Inl e \<Rightarrow> Inl e
            | Inr ps \<Rightarrow> Inr (dict_of ps)))"

definition inverse :: "pdict \<Rightarrow> pdict" where
  "inverse sigma = dict_of (map (\<lambda>(k, v). (v, k)) sigma)"

text \<open>\<open>for _ in range(abs(k)): result = compose(result, base)\<close>\<close>

fun power_loop :: "nat \<Rightarrow> pdict \<Rightarrow> pdict \<Rightarrow> error + pdict" where
  "power_loop 0 result base = Inr result"
| "power_loop (Suc m) result base =
     (case compose result base of
        Inl e \<Rightarrow> Inl e
      | Inr r \<Rightarrow> power_loop m r base)"

definition power :: "pdict \<Rightarrow> int \<Rightarrow> error + pdict" where
  "power sigma k =
     (let n = int (length sigma);
          result = identity n
      in if k = 0 then Inr result
         else (let base = (if k > 0 then sigma else inverse sigma)
               in power_loop (nat \<bar>k\<bar>) result base))"

text \<open>The \<open>while current != e\<close> loop of \<open>order\<close>. It has no bound in the source, so
  not returning is the value \<open>None\<close>.\<close>

partial_function (option) order_loop ::
    "pdict \<Rightarrow> pdict \<Rightarrow> pdict \<Rightarrow> int \<Rightarrow> (error + int) option" where
  "order_loop sigma e current k =
     (if \<not> dict_eq current e
      then (case compose current sigma of
              Inl err \<Rightarrow> Some (Inl err)
            | Inr c \<Rightarrow> order_loop sigma e c (k + 1))
      else Some (Inr k))"

declare order_loop.simps [code]

definition order :: "pdict \<Rightarrow> (error + int) option" where
  "order sigma =
     (let n = int (length sigma);
          e = identity n;
          current = dict_of sigma
      in order_loop sigma e current 1)"

subsection \<open>Generating S\_n\<close>

text \<open>
  \<open>itertools.permutations(pool)\<close> is Python's standard library, modelled as it is
  documented: the full-length permutations of the pool, chosen by position, in
  lexicographic order of the positions.
\<close>

function permutations_py :: "'a list \<Rightarrow> 'a list list" where
  "permutations_py pool =
     (if pool = [] then [[]]
      else concat (map (\<lambda>i. map ((#) (pool ! i))
                               (permutations_py (take i pool @ drop (Suc i) pool)))
                       [0..<length pool]))"
  by pat_completeness auto
termination
  by (relation "measure length") auto

declare permutations_py.simps [simp del]

definition generate_Sn :: "int \<Rightarrow> pdict list" where
  "generate_Sn n = map (\<lambda>perm. dict_of (zip (range1 n) perm)) (permutations_py (range1 n))"

subsection \<open>Cycle notation\<close>

text \<open>The inner loop of \<open>to_cycles\<close>: \<open>while current not in visited\<close>. Each round
  puts a key of \<open>sigma\<close> into \<open>visited\<close> that was not there, or raises KeyError.\<close>

function cycle_walk :: "pdict \<Rightarrow> int set \<Rightarrow> int list \<Rightarrow> int \<Rightarrow> error + (int set \<times> int list)" where
  "cycle_walk sigma visited cycle current =
     (if current \<notin> visited
      then (case getitem sigma current of
              Inl e \<Rightarrow> Inl e
            | Inr nxt \<Rightarrow> cycle_walk sigma (insert current visited) (cycle @ [current]) nxt)
      else Inr (visited, cycle))"
  by pat_completeness auto
termination
proof (relation "measure (\<lambda>(sigma, visited, cycle, current). card (set (keys sigma) - visited))")
  show "wf (measure (\<lambda>(sigma, visited, cycle, current). card (set (keys sigma) - visited)))"
    by simp
next
  fix sigma :: pdict and visited :: "int set" and cycle :: "int list" and current x2 :: int
  assume nv: "current \<notin> visited" and g: "getitem sigma current = Inr x2"
  from g have "current \<in> set (keys sigma)"
    by (auto simp: getitem_def keys_def split: option.splits dest: map_of_SomeD intro: rev_image_eqI)
  with nv have "card (set (keys sigma) - insert current visited) < card (set (keys sigma) - visited)"
    by (intro psubset_card_mono) auto
  then show "((sigma, insert current visited, cycle @ [current], x2), (sigma, visited, cycle, current))
        \<in> measure (\<lambda>(sigma, visited, cycle, current). card (set (keys sigma) - visited))"
    by simp
qed

declare cycle_walk.simps [simp del]

text \<open>The outer loop: \<open>for start in sorted(sigma.keys())\<close>.\<close>

fun to_cycles_loop :: "pdict \<Rightarrow> int list \<Rightarrow> int set \<Rightarrow> int list list \<Rightarrow> error + int list list" where
  "to_cycles_loop sigma [] visited cycles = Inr cycles"
| "to_cycles_loop sigma (start # rest) visited cycles =
     (if start \<in> visited then to_cycles_loop sigma rest visited cycles
      else (case cycle_walk sigma visited [] start of
              Inl e \<Rightarrow> Inl e
            | Inr (visited', cycle) \<Rightarrow>
                if length cycle > 1
                then to_cycles_loop sigma rest visited' (cycles @ [cycle])
                else to_cycles_loop sigma rest visited' cycles))"

definition to_cycles :: "pdict \<Rightarrow> error + int list list" where
  "to_cycles sigma = to_cycles_loop sigma (sort (keys sigma)) {} []"

text \<open>\<open>str(x)\<close> for an int, and \<open>sep.join(parts)\<close>.\<close>

function str_nat :: "nat \<Rightarrow> string" where
  "str_nat m = (if m < 10 then [char_of (48 + m)] else str_nat (m div 10) @ [char_of (48 + m mod 10)])"
  by pat_completeness auto
termination
  by (relation "measure id") auto

declare str_nat.simps [simp del]

definition str_int :: "int \<Rightarrow> string" where
  "str_int x = (if x < 0 then CHR ''-'' # str_nat (nat (- x)) else str_nat (nat x))"

fun join :: "string \<Rightarrow> string list \<Rightarrow> string" where
  "join sep [] = []"
| "join sep [p] = p"
| "join sep (p # ps) = p @ sep @ join sep ps"

definition cycle_notation_str :: "pdict \<Rightarrow> error + string" where
  "cycle_notation_str sigma =
     (case to_cycles sigma of
        Inl e \<Rightarrow> Inl e
      | Inr cycles \<Rightarrow>
          Inr (if cycles = [] then ''e''
               else concat (map (\<lambda>c. ''('' @ join '' '' (map str_int c) @ '')'') cycles)))"

subsection \<open>Subgroup verification\<close>

text \<open>\<open>tuple(sorted(s.items()))\<close>: the items in the lexicographic order of pairs.\<close>

definition perm_key :: "pdict \<Rightarrow> (int \<times> int) list" where
  "perm_key sigma = sort sigma"

text \<open>The closure check of \<open>is_subgroup\<close>, the inner and the outer \<open>for\<close>; the
  argument \<open>subset\<close> of the source is \<open>subs\<close> here. The result \<open>True\<close> says that no
  pair failed. A failing pair is reported by \<open>print\<close>, which renders the three
  permutations with \<open>cycle_notation_str\<close> before \<open>False\<close> is returned; what is
  printed is not part of the result, an exception raised while rendering is.\<close>

fun closure_inner :: "(int \<times> int) list list \<Rightarrow> pdict \<Rightarrow> pdict list \<Rightarrow> error + bool" where
  "closure_inner subset_set s [] = Inr True"
| "closure_inner subset_set s (t # ts) =
     (case compose s t of
        Inl e \<Rightarrow> Inl e
      | Inr st \<Rightarrow>
          if perm_key st \<notin> set subset_set
          then (case cycle_notation_str s of
                  Inl e \<Rightarrow> Inl e
                | Inr _ \<Rightarrow>
                    (case cycle_notation_str t of
                       Inl e \<Rightarrow> Inl e
                     | Inr _ \<Rightarrow>
                         (case cycle_notation_str st of
                            Inl e \<Rightarrow> Inl e
                          | Inr _ \<Rightarrow> Inr False)))
          else closure_inner subset_set s ts)"

fun closure_outer :: "(int \<times> int) list list \<Rightarrow> pdict list \<Rightarrow> pdict list \<Rightarrow> error + bool" where
  "closure_outer subset_set subs [] = Inr True"
| "closure_outer subset_set subs (s # ss) =
     (case closure_inner subset_set s subs of
        Inl e \<Rightarrow> Inl e
      | Inr ok \<Rightarrow> if ok then closure_outer subset_set subs ss else Inr False)"

fun inverses_loop :: "(int \<times> int) list list \<Rightarrow> pdict list \<Rightarrow> error + bool" where
  "inverses_loop subset_set [] = Inr True"
| "inverses_loop subset_set (s # ss) =
     (let inv_s = inverse s
      in if perm_key inv_s \<notin> set subset_set
         then (case cycle_notation_str s of Inl e \<Rightarrow> Inl e | Inr _ \<Rightarrow> Inr False)
         else inverses_loop subset_set ss)"

definition is_subgroup :: "pdict list \<Rightarrow> int \<Rightarrow> error + bool" where
  "is_subgroup subs n =
     (let e = identity n;
          subset_set = map perm_key subs
      in if perm_key e \<notin> set subset_set then Inr False
         else (case closure_outer subset_set subs subs of
                 Inl err \<Rightarrow> Inl err
               | Inr closed \<Rightarrow>
                   if \<not> closed then Inr False
                   else inverses_loop subset_set subs))"

section \<open>stabilizer.py\<close>

fun compute_stabilizer :: "pdict list \<Rightarrow> int \<Rightarrow> error + pdict list" where
  "compute_stabilizer [] fixed_point = Inr []"
| "compute_stabilizer (sigma # Sn) fixed_point =
     (case getitem sigma fixed_point of
        Inl e \<Rightarrow> Inl e
      | Inr v \<Rightarrow>
          (case compute_stabilizer Sn fixed_point of
             Inl e \<Rightarrow> Inl e
           | Inr r \<Rightarrow> Inr (if v = fixed_point then sigma # r else r)))"

fun compute_orbit :: "pdict list \<Rightarrow> int \<Rightarrow> error + int set" where
  "compute_orbit [] point = Inr {}"
| "compute_orbit (sigma # Sn) point =
     (case getitem sigma point of
        Inl e \<Rightarrow> Inl e
      | Inr v \<Rightarrow>
          (case compute_orbit Sn point of
             Inl e \<Rightarrow> Inl e
           | Inr r \<Rightarrow> Inr (insert v r)))"

fun left_coset :: "pdict \<Rightarrow> pdict list \<Rightarrow> error + pdict list" where
  "left_coset sigma [] = Inr []"
| "left_coset sigma (h # subgroup) =
     (case compose sigma h of
        Inl e \<Rightarrow> Inl e
      | Inr c \<Rightarrow>
          (case left_coset sigma subgroup of
             Inl e \<Rightarrow> Inl e
           | Inr r \<Rightarrow> Inr (c # r)))"

text \<open>The \<open>for sigma in Sn\<close> loop of \<open>coset_decomposition\<close>, with its two variables
  \<open>covered\<close> and \<open>cosets\<close>.\<close>

fun coset_loop ::
    "pdict list \<Rightarrow> pdict list \<Rightarrow> (int \<times> int) list set \<Rightarrow> pdict list list \<Rightarrow> error + pdict list list" where
  "coset_loop subgroup [] covered cosets = Inr cosets"
| "coset_loop subgroup (sigma # Sn) covered cosets =
     (if perm_key sigma \<notin> covered
      then (case left_coset sigma subgroup of
              Inl e \<Rightarrow> Inl e
            | Inr coset \<Rightarrow>
                coset_loop subgroup Sn (covered \<union> set (map perm_key coset)) (cosets @ [coset]))
      else coset_loop subgroup Sn covered cosets)"

text \<open>The sort key \<open>0 if perm_key(c[0]) in subgroup_keys else 1\<close>, computed for every
  coset before the sort; \<open>c[0]\<close> raises IndexError on an empty coset.\<close>

fun coset_sort_keys :: "(int \<times> int) list set \<Rightarrow> pdict list list \<Rightarrow> error + nat list" where
  "coset_sort_keys subgroup_keys [] = Inr []"
| "coset_sort_keys subgroup_keys (c # cs) =
     (case c of
        [] \<Rightarrow> Inl IndexError
      | c0 # _ \<Rightarrow>
          (case coset_sort_keys subgroup_keys cs of
             Inl e \<Rightarrow> Inl e
           | Inr ks \<Rightarrow> Inr ((if perm_key c0 \<in> subgroup_keys then 0 else 1) # ks)))"

text \<open>\<open>list.sort\<close> is stable, as \<open>sort_key\<close> is.\<close>

definition coset_decomposition :: "pdict list \<Rightarrow> pdict list \<Rightarrow> error + pdict list list" where
  "coset_decomposition Sn subgroup =
     (let subgroup_keys = set (map perm_key subgroup)
      in case coset_loop subgroup Sn {} [] of
           Inl e \<Rightarrow> Inl e
         | Inr cosets \<Rightarrow>
             (case coset_sort_keys subgroup_keys cosets of
                Inl e \<Rightarrow> Inl e
              | Inr ks \<Rightarrow> Inr (map snd (sort_key fst (zip ks cosets)))))"

text \<open>\<open>math.factorial\<close> raises ValueError on a negative argument.\<close>

definition factorial :: "int \<Rightarrow> error + int" where
  "factorial m =
     (if m < 0 then Inl (ValueError ''factorial() not defined for negative values'')
      else Inr (int (fact (nat m))))"

text \<open>\<open>verify_stabilizer\<close>; what it prints when \<open>verbose\<close> is set is not part of the
  result. \<open>len(Sn) // len(stab)\<close> raises ZeroDivisionError on an empty stabilizer.\<close>

definition verify_stabilizer :: "int \<Rightarrow> int \<Rightarrow> bool \<Rightarrow> error + bool" where
  "verify_stabilizer n fixed_point verbose =
     (let Sn = generate_Sn n
      in case compute_stabilizer Sn fixed_point of
           Inl e \<Rightarrow> Inl e
         | Inr stab \<Rightarrow>
        (case compute_orbit Sn fixed_point of
           Inl e \<Rightarrow> Inl e
         | Inr orb \<Rightarrow>
        (case is_subgroup stab n of
           Inl e \<Rightarrow> Inl e
         | Inr sub_check \<Rightarrow>
        (case factorial (n - 1) of
           Inl e \<Rightarrow> Inl e
         | Inr expected_order \<Rightarrow>
        (let order_check = (int (length stab) = expected_order);
             os_check = (length Sn = card orb * length stab)
         in if length stab = 0 then Inl ZeroDivisionError
            else (let index = int (length Sn) div int (length stab);
                      index_check = (index = n)
                  in case coset_decomposition Sn stab of
                       Inl e \<Rightarrow> Inl e
                     | Inr cosets \<Rightarrow>
                         (let coset_check = (int (length cosets) = n \<and>
                                             sum_list (map length cosets) = length Sn)
                          in Inr (sub_check \<and> order_check \<and> os_check \<and>
                                  index_check \<and> coset_check))))))))"

section \<open>Dicts that are permutations\<close>

text \<open>A well-formed dict, and what \<open>make_permutation\<close> accepts.\<close>

definition wf_dict :: "pdict \<Rightarrow> bool" where
  "wf_dict d \<longleftrightarrow> distinct (keys d)"

definition valid_perm :: "pdict \<Rightarrow> bool" where
  "valid_perm d \<longleftrightarrow> wf_dict d \<and> set (keys d) = set (values_of d)"

text \<open>A valid permutation on \<open>{1, ..., n}\<close>.\<close>

definition perm_on :: "int \<Rightarrow> pdict \<Rightarrow> bool" where
  "perm_on n d \<longleftrightarrow> valid_perm d \<and> set (keys d) = {1..n}"

text \<open>A valid permutation whose key set is \<open>K\<close>.\<close>

definition perm_of :: "int set \<Rightarrow> pdict \<Rightarrow> bool" where
  "perm_of K d \<longleftrightarrow> valid_perm d \<and> set (keys d) = K"

text \<open>The function a dict stands for, for the proofs: \<open>ap d i\<close> is \<open>d[i]\<close> on
  a key (lemma \<open>getitem_ap\<close>) and \<open>i\<close> elsewhere.\<close>

definition ap :: "pdict \<Rightarrow> int \<Rightarrow> int" where
  "ap d i = (case map_of d i of Some v \<Rightarrow> v | None \<Rightarrow> i)"

text \<open>The integer powers of that function: the function iterated for \<open>k \<ge> 0\<close>,
  the function of the inverse dict iterated for \<open>k < 0\<close>.\<close>

definition ipow :: "pdict \<Rightarrow> int \<Rightarrow> int \<Rightarrow> int" where
  "ipow d k i = (if 0 \<le> k then (ap d ^^ nat k) i else (ap (inverse d) ^^ nat (- k)) i)"

text \<open>The \<open>m\<close>-th iterate of that function is the identity on \<open>{1, ..., n}\<close>.\<close>

definition pid :: "int \<Rightarrow> pdict \<Rightarrow> nat \<Rightarrow> bool" where
  "pid n d m \<longleftrightarrow> (\<forall>i \<in> {1..n}. (ap d ^^ m) i = i)"

text \<open>The first \<open>k\<close> points of the walk that \<open>to_cycles\<close> takes from \<open>s\<close>, and
  what is proved of a list of cycles.\<close>

definition orb :: "pdict \<Rightarrow> int \<Rightarrow> nat \<Rightarrow> int list" where
  "orb sigma s k = map (\<lambda>j. (ap sigma ^^ j) s) [0..<k]"

definition cycles_ok :: "pdict \<Rightarrow> int list list \<Rightarrow> bool" where
  "cycles_ok sigma cs \<longleftrightarrow>
     (\<forall>c \<in> set cs. 2 \<le> length c \<and>
                    (\<forall>j < length c. ap sigma (c ! j) = c ! (Suc j mod length c)) \<and>
                    (\<forall>x \<in> set c. hd c \<le> x))
     \<and> distinct (concat cs) \<and> sorted_wrt (<) (map hd cs)"

text \<open>For the cosets: what \<open>compose\<close> returns on permutations (lemma \<open>compose_mul\<close>),
  a permutation with its keys in the order \<open>1, ..., n\<close>, the set of the members of
  \<open>generate_Sn n\<close> (lemma \<open>Sym_generate\<close>), the inverse in that set, a subgroup of it, and
  what a list of cosets of \<open>H\<close> satisfies while the decomposition runs.\<close>

definition mul :: "pdict \<Rightarrow> pdict \<Rightarrow> pdict" where
  "mul sigma tau = map (\<lambda>i. (i, ap sigma (ap tau i))) (keys tau)"

definition canon :: "int \<Rightarrow> pdict \<Rightarrow> pdict" where
  "canon n d = map (\<lambda>i. (i, ap d i)) [1..n]"

definition Sym :: "int \<Rightarrow> pdict set" where
  "Sym n = {s. perm_on n s \<and> keys s = [1..n]}"

definition cinv :: "int \<Rightarrow> pdict \<Rightarrow> pdict" where
  "cinv n s = canon n (inverse s)"

definition subgroup :: "int \<Rightarrow> pdict set \<Rightarrow> bool" where
  "subgroup n H \<longleftrightarrow> H \<subseteq> Sym n \<and> identity n \<in> H \<and> (\<forall>s \<in> H. \<forall>t \<in> H. mul s t \<in> H) \<and>
                  (\<forall>s \<in> H. cinv n s \<in> H)"

definition partition_ok :: "int \<Rightarrow> pdict list \<Rightarrow> pdict list list \<Rightarrow> bool" where
  "partition_ok n H cs \<longleftrightarrow>
     (\<forall>c \<in> set cs. \<exists>s \<in> Sym n. c = map (mul s) H) \<and> distinct cs \<and>
     (\<forall>c \<in> set cs. \<forall>d \<in> set cs. c \<noteq> d \<longrightarrow> set c \<inter> set d = {})"

text \<open>The member of \<open>generate_Sn n\<close> that exchanges \<open>x\<close> and \<open>v\<close>, and the list
  that \<open>compute_stabilizer\<close> returns on \<open>generate_Sn n\<close> (lemma
  \<open>verify_stabilizer_facts\<close>).\<close>

definition transp :: "int \<Rightarrow> int \<Rightarrow> int \<Rightarrow> pdict" where
  "transp n x v = map (\<lambda>i. (i, if i = x then v else if i = v then x else i)) [1..n]"

definition stabilizer :: "int \<Rightarrow> int \<Rightarrow> pdict list" where
  "stabilizer n x = filter (\<lambda>s. ap s x = x) (generate_Sn n)"

section \<open>Dict primitives\<close>

lemma setitem_fresh: "k \<notin> fst ` set d \<Longrightarrow> setitem d k v = d @ [(k, v)]"
  by (induction d) auto

lemma fold_setitem_distinct:
  "distinct (map fst (d @ ps)) \<Longrightarrow> fold (\<lambda>(k, v) d. setitem d k v) ps d = d @ ps"
proof (induction ps arbitrary: d)
  case Nil
  then show ?case by simp
next
  case (Cons p ps)
  obtain k v where p: "p = (k, v)" by (cases p)
  from Cons.prems have fresh: "k \<notin> fst ` set d" by (auto simp: p)
  from Cons.prems have "distinct (map fst ((d @ [(k, v)]) @ ps))" by (simp add: p)
  from Cons.IH [OF this] show ?case by (simp add: p setitem_fresh [OF fresh])
qed

lemma dict_of_distinct: "distinct (map fst ps) \<Longrightarrow> dict_of ps = ps"
  using fold_setitem_distinct [of "[]" ps] by (simp add: dict_of_def)

section \<open>make\_permutation\<close>

text \<open>
  C10: \<open>make_permutation\<close> raises exactly when the set of keys of the mapping differs
  from the set of its values. A mapping whose key set equals its value set is returned as
  an equal copy, whatever that set is: the dict \<open>{5: 7, 7: 5}\<close> is accepted although its
  domain is not of the form \<open>{1, ..., n}\<close>.
\<close>

theorem make_permutation_raises_iff:
  "wf_dict mapping \<Longrightarrow>
     ((\<exists>e. make_permutation mapping = Inl e) \<longleftrightarrow> set (keys mapping) \<noteq> set (values_of mapping))
   \<and> (set (keys mapping) = set (values_of mapping) \<longrightarrow> make_permutation mapping = Inr mapping)
   \<and> make_permutation [(5, 7), (7, 5)] = Inr [(5, 7), (7, 5)]
   \<and> \<not> (\<exists>n. set (keys [(5, 7), (7, 5)]) = {1..n})"
proof -
  assume wf: "wf_dict mapping"
  then have copy: "dict_of mapping = mapping"
    by (simp add: wf_dict_def keys_def dict_of_distinct)
  have ex: "dict_of [(5, 7), (7, 5)] = [(5, 7), (7, 5)]"
    by (rule dict_of_distinct) simp
  have "\<not> (\<exists>n. {5, 7} = {1..n::int})"
  proof
    assume "\<exists>n. {5, 7} = {1..n::int}"
    then obtain n :: int where n: "{5, 7} = {1..n}" ..
    then have "(7::int) \<in> {1..n}" by blast
    then have "(6::int) \<in> {1..n}" by simp
    with n have "(6::int) \<in> {5, 7}" by simp
    then show False by simp
  qed
  moreover have "{5, 7} = {7, 5::int}" by auto
  ultimately show ?thesis
    by (simp add: make_permutation_def copy ex keys_def values_of_def)
qed

theorem make_permutation_raises_iff_witness:
  "wf_dict [(1, 2), (2, 1)] \<and> make_permutation [(1, 2), (2, 1)] = Inr [(1, 2), (2, 1)]
   \<and> wf_dict [(1, 2), (2, 2)] \<and> (\<exists>e. make_permutation [(1, 2), (2, 2)] = Inl e)"
proof -
  have a: "wf_dict [(1, 2), (2, 1)]" by (simp add: wf_dict_def keys_def)
  have b: "wf_dict [(1, 2), (2, 2)]" by (simp add: wf_dict_def keys_def)
  show ?thesis
    using make_permutation_raises_iff [OF a] make_permutation_raises_iff [OF b] a b
    by (auto simp: keys_def values_of_def)
qed

lemma keys_iff: "i \<in> set (keys d) \<longleftrightarrow> map_of d i \<noteq> None"
  by (simp add: keys_def map_of_eq_None_iff)

lemma getitem_ap: "i \<in> set (keys d) \<Longrightarrow> getitem d i = Inr (ap d i)"
  by (auto simp: keys_iff getitem_def ap_def)

lemma getitem_KeyError: "i \<notin> set (keys d) \<Longrightarrow> getitem d i = Inl (KeyError i)"
  by (auto simp: keys_iff getitem_def)

lemma ap_item: "wf_dict d \<Longrightarrow> (k, v) \<in> set d \<Longrightarrow> ap d k = v"
  by (simp add: wf_dict_def keys_def ap_def)

lemma ap_in_values: "i \<in> set (keys d) \<Longrightarrow> ap d i \<in> set (values_of d)"
proof -
  assume "i \<in> set (keys d)"
  then obtain v where v: "map_of d i = Some v" by (auto simp: keys_iff)
  then have "(i, v) \<in> set d" by (rule map_of_SomeD)
  then have "v \<in> set (values_of d)" by (force simp: values_of_def)
  with v show ?thesis by (simp add: ap_def)
qed

lemma dict_as_map: "wf_dict d \<Longrightarrow> d = map (\<lambda>k. (k, ap d k)) (keys d)"
proof -
  assume wf: "wf_dict d"
  have "map (\<lambda>k. (k, ap d k)) (keys d) = map (\<lambda>p. (fst p, ap d (fst p))) d"
    by (simp add: keys_def comp_def)
  also have "\<dots> = map (\<lambda>p. p) d"
  proof (rule map_cong [OF refl])
    fix p assume "p \<in> set d"
    then have "ap d (fst p) = snd p" using ap_item [OF wf, of "fst p" "snd p"] by simp
    then show "(fst p, ap d (fst p)) = p" by simp
  qed
  finally show ?thesis by simp
qed

lemma values_of_ap: "wf_dict d \<Longrightarrow> values_of d = map (ap d) (keys d)"
proof -
  assume wf: "wf_dict d"
  have "values_of d = map snd (map (\<lambda>k. (k, ap d k)) (keys d))"
    using dict_as_map [OF wf] by (simp add: values_of_def)
  then show ?thesis by (simp add: comp_def)
qed

lemma keys_tab [simp]: "keys (map (\<lambda>i. (i, f i)) ks) = ks"
  by (simp add: keys_def comp_def)

lemma ap_tab: "i \<in> set ks \<Longrightarrow> ap (map (\<lambda>i. (i, f i)) ks) i = f i"
  by (simp add: ap_def map_of_map_restrict)

lemma wf_tab: "distinct ks \<Longrightarrow> wf_dict (map (\<lambda>i. (i, f i)) ks)"
  by (simp add: wf_dict_def)

lemma dict_of_tab: "distinct ks \<Longrightarrow> dict_of (map (\<lambda>i. (i, f i)) ks) = map (\<lambda>i. (i, f i)) ks"
  by (rule dict_of_distinct) (simp add: comp_def)

lemma compose_items_ok:
  "set js \<subseteq> set (keys tau) \<Longrightarrow> ap tau ` set js \<subseteq> set (keys sigma) \<Longrightarrow>
   compose_items sigma tau js = Inr (map (\<lambda>i. (i, ap sigma (ap tau i))) js)"
  by (induction js) (simp_all add: getitem_ap)

lemma compose_ok:
  assumes "wf_dict tau" and "set (keys sigma) = set (keys tau)"
    and "set (values_of tau) \<subseteq> set (keys sigma)"
  shows "compose sigma tau = Inr (map (\<lambda>i. (i, ap sigma (ap tau i))) (keys tau))"
proof -
  have "ap tau ` set (keys tau) \<subseteq> set (keys sigma)"
    using assms(3) ap_in_values by blast
  then have "compose_items sigma tau (keys tau) = Inr (map (\<lambda>i. (i, ap sigma (ap tau i))) (keys tau))"
    by (intro compose_items_ok) simp_all
  moreover have "distinct (keys tau)" using assms(1) by (simp add: wf_dict_def)
  ultimately show ?thesis
    using assms(2) by (simp add: compose_def dict_of_tab)
qed

lemma length_keys [simp]: "length (keys d) = length d"
  by (simp add: keys_def)

lemma dict_eq_iff:
  assumes "wf_dict a" and "wf_dict b"
  shows "dict_eq a b \<longleftrightarrow> set (keys a) = set (keys b) \<and> (\<forall>i \<in> set (keys a). ap a i = ap b i)"
proof
  assume eq: "dict_eq a b"
  then have len: "length a = length b" and items: "\<And>k v. (k, v) \<in> set a \<Longrightarrow> map_of b k = Some v"
    by (auto simp: dict_eq_def)
  have sub: "set (keys a) \<subseteq> set (keys b)"
  proof
    fix k assume "k \<in> set (keys a)"
    then obtain v where "(k, v) \<in> set a" by (auto simp: keys_def)
    from items [OF this] show "k \<in> set (keys b)" by (simp add: keys_iff)
  qed
  have "card (set (keys a)) = card (set (keys b))"
    using assms len by (simp add: wf_dict_def distinct_card)
  with sub have keq: "set (keys a) = set (keys b)"
    by (simp add: card_subset_eq)
  have "\<forall>i \<in> set (keys a). ap a i = ap b i"
  proof
    fix i assume "i \<in> set (keys a)"
    then obtain v where v: "(i, v) \<in> set a" by (auto simp: keys_def)
    from items [OF v] have "ap b i = v" by (simp add: ap_def)
    moreover from v have "ap a i = v" using assms(1) by (rule ap_item [rotated])
    ultimately show "ap a i = ap b i" by simp
  qed
  with keq show "set (keys a) = set (keys b) \<and> (\<forall>i \<in> set (keys a). ap a i = ap b i)" ..
next
  assume r: "set (keys a) = set (keys b) \<and> (\<forall>i \<in> set (keys a). ap a i = ap b i)"
  have "length a = length b"
    using assms r distinct_card [of "keys a"] distinct_card [of "keys b"]
    by (simp add: wf_dict_def)
  moreover have "\<forall>(k, v) \<in> set a. map_of b k = Some v"
  proof (clarify)
    fix k v assume kv: "(k, v) \<in> set a"
    then have ka: "k \<in> set (keys a)" by (force simp: keys_def)
    with r have "k \<in> set (keys b)" by simp
    then obtain w where w: "map_of b k = Some w" by (auto simp: keys_iff)
    then have "ap b k = w" by (simp add: ap_def)
    moreover have "ap a k = v" using assms(1) kv by (rule ap_item)
    ultimately show "map_of b k = Some v" using r ka w by simp
  qed
  ultimately show "dict_eq a b" by (simp add: dict_eq_def)
qed

section \<open>Permutations as dicts\<close>

lemma valid_perm_image: "valid_perm d \<Longrightarrow> ap d ` set (keys d) = set (keys d)"
  using values_of_ap [of d] by (auto simp: valid_perm_def)

lemma valid_perm_maps: "valid_perm d \<Longrightarrow> i \<in> set (keys d) \<Longrightarrow> ap d i \<in> set (keys d)"
  using valid_perm_image by blast

lemma valid_perm_inj: "valid_perm d \<Longrightarrow> inj_on (ap d) (set (keys d))"
  by (rule eq_card_imp_inj_on) (simp_all add: valid_perm_image)

lemma valid_perm_distinct_values: "valid_perm d \<Longrightarrow> distinct (values_of d)"
proof -
  assume v: "valid_perm d"
  then have "card (set (values_of d)) = card (set (keys d))" by (simp add: valid_perm_def)
  also have "\<dots> = length (keys d)"
    using v distinct_card [of "keys d"] by (simp only: valid_perm_def wf_dict_def)
  also have "\<dots> = length (values_of d)" by (simp add: values_of_def keys_def)
  finally show ?thesis by (rule card_distinct)
qed

lemma perm_on_tab:
  assumes "distinct ks" and "set ks = {1..n}" and "f ` {1..n} = {1..n}"
  shows "perm_on n (map (\<lambda>i. (i, f i)) ks)"
  using assms by (simp add: perm_on_def valid_perm_def wf_tab values_of_def comp_def)

lemma perm_on_valid: "perm_on n d \<Longrightarrow> valid_perm d"
  by (simp add: perm_on_def)

lemma perm_on_wf: "perm_on n d \<Longrightarrow> wf_dict d"
  by (simp add: perm_on_def valid_perm_def)

lemma perm_on_keys: "perm_on n d \<Longrightarrow> set (keys d) = {1..n}"
  by (simp add: perm_on_def)

lemma perm_on_image: "perm_on n d \<Longrightarrow> ap d ` {1..n} = {1..n}"
  using valid_perm_image [of d] by (simp add: perm_on_def)

lemma perm_on_maps: "perm_on n d \<Longrightarrow> i \<in> {1..n} \<Longrightarrow> ap d i \<in> {1..n}"
  using perm_on_image by blast

lemma perm_on_inj: "perm_on n d \<Longrightarrow> inj_on (ap d) {1..n}"
  using valid_perm_inj [of d] by (simp add: perm_on_def)

lemma compose_valid:
  assumes s: "valid_perm sigma" and t: "valid_perm tau" and k: "set (keys sigma) = set (keys tau)"
  shows "compose sigma tau = Inr (map (\<lambda>i. (i, ap sigma (ap tau i))) (keys tau))"
    and "valid_perm (map (\<lambda>i. (i, ap sigma (ap tau i))) (keys tau))"
proof -
  show "compose sigma tau = Inr (map (\<lambda>i. (i, ap sigma (ap tau i))) (keys tau))"
    using s t k by (intro compose_ok) (simp_all add: valid_perm_def)
  have "(\<lambda>i. ap sigma (ap tau i)) ` set (keys tau) = ap sigma ` (ap tau ` set (keys tau))"
    by (simp add: image_comp comp_def)
  also have "\<dots> = set (keys tau)"
    using valid_perm_image [OF s] valid_perm_image [OF t] k by simp
  finally show "valid_perm (map (\<lambda>i. (i, ap sigma (ap tau i))) (keys tau))"
    using t by (simp add: valid_perm_def wf_dict_def values_of_def comp_def)
qed

lemma compose_perm_on:
  assumes s: "perm_on n sigma" and t: "perm_on n tau"
  shows "compose sigma tau = Inr (map (\<lambda>i. (i, ap sigma (ap tau i))) (keys tau))"
    and "perm_on n (map (\<lambda>i. (i, ap sigma (ap tau i))) (keys tau))"
  using compose_valid [of sigma tau] s t by (simp_all add: perm_on_def)

lemma identity_tab: "identity n = map (\<lambda>i. (i, i)) [1..n]"
  by (simp add: identity_def range1_def dict_of_tab)

lemma ap_identity [simp]: "ap (identity n) i = i"
proof (cases "i \<in> set [1..n]")
  case True
  then show ?thesis unfolding identity_tab by (rule ap_tab)
next
  case False
  then have "map_of (identity n) i = None"
    by (simp add: identity_tab map_of_eq_None_iff image_image)
  then show ?thesis by (simp add: ap_def)
qed

lemma keys_identity [simp]: "keys (identity n) = [1..n]"
  by (simp add: identity_tab)

lemma perm_on_identity: "perm_on n (identity n)"
  unfolding identity_tab by (rule perm_on_tab) simp_all

lemma inverse_valid:
  assumes v: "valid_perm d"
  shows "inverse d = map (\<lambda>(k, v). (v, k)) d"
    and "keys (inverse d) = values_of d"
    and "values_of (inverse d) = keys d"
    and "valid_perm (inverse d)"
proof -
  have m: "map fst (map (\<lambda>(k, v). (v, k)) d) = values_of d"
    by (simp add: values_of_def comp_def case_prod_unfold)
  have dm: "distinct (map fst (map (\<lambda>(k, v). (v, k)) d))"
    unfolding m by (rule valid_perm_distinct_values [OF v])
  show i: "inverse d = map (\<lambda>(k, v). (v, k)) d"
    unfolding inverse_def by (rule dict_of_distinct [OF dm])
  show k: "keys (inverse d) = values_of d" using m by (simp only: i keys_def)
  show w: "values_of (inverse d) = keys d"
    by (simp add: i keys_def values_of_def comp_def case_prod_unfold)
  show "valid_perm (inverse d)"
    using v valid_perm_distinct_values [OF v] by (simp add: valid_perm_def wf_dict_def k w)
qed

lemma inverse_perm_on: "perm_on n d \<Longrightarrow> perm_on n (inverse d)"
proof -
  assume p: "perm_on n d"
  then have v: "valid_perm d" by (rule perm_on_valid)
  have "set (keys (inverse d)) = set (keys d)"
    using v by (simp only: inverse_valid(2) [OF v] valid_perm_def)
  with p inverse_valid(4) [OF v] show ?thesis by (simp add: perm_on_def)
qed

lemma ap_inverse_left:
  assumes v: "valid_perm d" and i: "i \<in> set (keys d)"
  shows "ap (inverse d) (ap d i) = i"
proof -
  have "(i, ap d i) \<in> set d"
    using dict_as_map [of d] v i by (metis (no_types, lifting) image_eqI list.set_map valid_perm_def)
  then have "(ap d i, i) \<in> set (inverse d)"
    by (force simp: inverse_valid(1) [OF v])
  moreover have "wf_dict (inverse d)" using inverse_valid(4) [OF v] by (simp add: valid_perm_def)
  ultimately show ?thesis by (rule ap_item [rotated])
qed

lemma ap_inverse_right:
  assumes v: "valid_perm d" and i: "i \<in> set (keys d)"
  shows "ap d (ap (inverse d) i) = i"
proof -
  from i valid_perm_image [OF v] obtain j where j: "j \<in> set (keys d)" "i = ap d j" by blast
  then show ?thesis by (simp add: ap_inverse_left [OF v])
qed

section \<open>compose\<close>

text \<open>
  C7: for valid permutations \<open>sigma\<close> and \<open>tau\<close> with the same key set,
  \<open>compose sigma tau\<close> returns a permutation \<open>r\<close> on the keys of \<open>tau\<close> with
  \<open>r[i] = sigma[tau[i]]\<close> for every key \<open>i\<close> (\<open>tau\<close> first, \<open>sigma\<close> second),
  and raises nothing. When the key sets differ it raises the ValueError
  "Permutations must be defined on the same set." (the spec's DomainMismatchError).
\<close>

theorem compose_spec:
  assumes "valid_perm sigma" and "valid_perm tau"
  shows "(set (keys sigma) = set (keys tau) \<longrightarrow>
            (\<exists>r. compose sigma tau = Inr r \<and> valid_perm r \<and> keys r = keys tau \<and>
                 (\<forall>i \<in> set (keys tau). \<exists>j v. getitem tau i = Inr j \<and> getitem sigma j = Inr v \<and>
                                               getitem r i = Inr v)))
       \<and> (set (keys sigma) \<noteq> set (keys tau) \<longrightarrow>
            compose sigma tau = Inl (ValueError ''Permutations must be defined on the same set.''))"
proof (intro conjI impI)
  assume k: "set (keys sigma) = set (keys tau)"
  let ?r = "map (\<lambda>i. (i, ap sigma (ap tau i))) (keys tau)"
  have "\<forall>i \<in> set (keys tau). \<exists>j v. getitem tau i = Inr j \<and> getitem sigma j = Inr v \<and> getitem ?r i = Inr v"
  proof
    fix i assume i: "i \<in> set (keys tau)"
    then have "ap tau i \<in> set (keys sigma)" using valid_perm_maps [OF assms(2)] k by simp
    then have "getitem sigma (ap tau i) = Inr (ap sigma (ap tau i))" by (rule getitem_ap)
    moreover have "getitem tau i = Inr (ap tau i)" using i by (rule getitem_ap)
    moreover have "getitem ?r i = Inr (ap sigma (ap tau i))"
      using i by (simp add: getitem_ap ap_tab)
    ultimately show "\<exists>j v. getitem tau i = Inr j \<and> getitem sigma j = Inr v \<and> getitem ?r i = Inr v"
      by blast
  qed
  then show "\<exists>r. compose sigma tau = Inr r \<and> valid_perm r \<and> keys r = keys tau \<and>
                 (\<forall>i \<in> set (keys tau). \<exists>j v. getitem tau i = Inr j \<and> getitem sigma j = Inr v \<and>
                                               getitem r i = Inr v)"
    using compose_valid [OF assms k] by (intro exI [of _ ?r]) simp
next
  assume "set (keys sigma) \<noteq> set (keys tau)"
  then show "compose sigma tau = Inl (ValueError ''Permutations must be defined on the same set.'')"
    by (simp add: compose_def)
qed

theorem compose_spec_witness:
  "valid_perm [(1, 2), (2, 1), (3, 3)] \<and> valid_perm [(1, 1), (2, 3), (3, 2)] \<and> valid_perm [(5, 7), (7, 5)]
   \<and> compose [(1, 2), (2, 1), (3, 3)] [(1, 1), (2, 3), (3, 2)] = Inr [(1, 2), (2, 3), (3, 1)]
   \<and> compose [(1, 2), (2, 1), (3, 3)] [(5, 7), (7, 5)]
       = Inl (ValueError ''Permutations must be defined on the same set.'')"
proof -
  have a: "valid_perm [(1, 2), (2, 1), (3, 3)]"
    by (auto simp: valid_perm_def wf_dict_def keys_def values_of_def)
  have b: "valid_perm [(1, 1), (2, 3), (3, 2)]"
    by (auto simp: valid_perm_def wf_dict_def keys_def values_of_def)
  have c: "valid_perm [(5, 7), (7, 5)]"
    by (auto simp: valid_perm_def wf_dict_def keys_def values_of_def)
  have d: "compose [(1, 2), (2, 1), (3, 3)] [(1, 1), (2, 3), (3, 2)] = Inr [(1, 2), (2, 3), (3, 1)]"
    by code_simp
  have "(1::int) \<in> set (keys [(1, 2), (2, 1), (3, 3)])" "(1::int) \<notin> set (keys [(5, 7), (7, 5)])"
    by (simp_all add: keys_def)
  then have "set (keys [(1, 2), (2, 1), (3, 3)]) \<noteq> set (keys [(5, 7), (7, 5)])"
    by metis
  with compose_spec [OF a c]
  have "compose [(1, 2), (2, 1), (3, 3)] [(5, 7), (7, 5)]
       = Inl (ValueError ''Permutations must be defined on the same set.'')"
    by blast
  with a b c d show ?thesis by simp
qed

section \<open>The group axioms\<close>

lemma perm_on_dict_eq:
  "perm_on n a \<Longrightarrow> perm_on n b \<Longrightarrow> dict_eq a b \<longleftrightarrow> (\<forall>i \<in> {1..n}. ap a i = ap b i)"
  using dict_eq_iff [OF perm_on_wf perm_on_wf, of n a n b] perm_on_keys [of n a] perm_on_keys [of n b]
  by simp

lemma compose_perm_on_ex:
  assumes s: "perm_on n sigma" and t: "perm_on n tau"
  obtains r where "compose sigma tau = Inr r" and "perm_on n r" and "keys r = keys tau"
    and "\<And>i. i \<in> {1..n} \<Longrightarrow> ap r i = ap sigma (ap tau i)"
proof
  let ?r = "map (\<lambda>i. (i, ap sigma (ap tau i))) (keys tau)"
  show "compose sigma tau = Inr ?r" by (rule compose_perm_on(1) [OF s t])
  show "perm_on n ?r" by (rule compose_perm_on(2) [OF s t])
  show "keys ?r = keys tau" by simp
  show "\<And>i. i \<in> {1..n} \<Longrightarrow> ap ?r i = ap sigma (ap tau i)"
    using perm_on_keys [OF t] by (simp add: ap_tab)
qed

text \<open>
  C3: on the valid permutations of \<open>{1, ..., n}\<close>, \<open>compose\<close> is associative,
  \<open>identity n\<close> is its unit on both sides and \<open>inverse sigma\<close> is the inverse of
  \<open>sigma\<close> on both sides; every \<open>compose\<close> involved returns, and \<open>==\<close> is the
  equality of dicts.
\<close>

theorem compose_group_axioms:
  assumes s: "perm_on n sigma" and t: "perm_on n tau" and r: "perm_on n rho"
  shows "(\<exists>st l tr r. compose sigma tau = Inr st \<and> compose st rho = Inr l \<and>
                     compose tau rho = Inr tr \<and> compose sigma tr = Inr r \<and> dict_eq l r)
       \<and> (\<exists>a b. compose sigma (identity n) = Inr a \<and> dict_eq a sigma \<and>
                 compose (identity n) sigma = Inr b \<and> dict_eq sigma b)
       \<and> (\<exists>c d. compose sigma (inverse sigma) = Inr c \<and> dict_eq c (identity n) \<and>
                 compose (inverse sigma) sigma = Inr d \<and> dict_eq (identity n) d)"
proof (intro conjI)
  obtain st where st: "compose sigma tau = Inr st" "perm_on n st"
      "\<And>i. i \<in> {1..n} \<Longrightarrow> ap st i = ap sigma (ap tau i)"
    using compose_perm_on_ex [OF s t] by blast
  obtain l where l: "compose st rho = Inr l" "perm_on n l"
      "\<And>i. i \<in> {1..n} \<Longrightarrow> ap l i = ap st (ap rho i)"
    using compose_perm_on_ex [OF st(2) r] by blast
  obtain tr where tr: "compose tau rho = Inr tr" "perm_on n tr"
      "\<And>i. i \<in> {1..n} \<Longrightarrow> ap tr i = ap tau (ap rho i)"
    using compose_perm_on_ex [OF t r] by blast
  obtain rr where rr: "compose sigma tr = Inr rr" "perm_on n rr"
      "\<And>i. i \<in> {1..n} \<Longrightarrow> ap rr i = ap sigma (ap tr i)"
    using compose_perm_on_ex [OF s tr(2)] by blast
  have "dict_eq l rr"
    unfolding perm_on_dict_eq [OF l(2) rr(2)]
    using perm_on_maps [OF r] by (simp add: l(3) rr(3) st(3) tr(3))
  with st(1) l(1) tr(1) rr(1)
  show "\<exists>st l tr r. compose sigma tau = Inr st \<and> compose st rho = Inr l \<and>
                     compose tau rho = Inr tr \<and> compose sigma tr = Inr r \<and> dict_eq l r"
    by blast
next
  note e = perm_on_identity [of n]
  obtain a where a: "compose sigma (identity n) = Inr a" "perm_on n a"
      "\<And>i. i \<in> {1..n} \<Longrightarrow> ap a i = ap sigma (ap (identity n) i)"
    using compose_perm_on_ex [OF s e] by blast
  obtain b where b: "compose (identity n) sigma = Inr b" "perm_on n b"
      "\<And>i. i \<in> {1..n} \<Longrightarrow> ap b i = ap (identity n) (ap sigma i)"
    using compose_perm_on_ex [OF e s] by blast
  have "dict_eq a sigma" unfolding perm_on_dict_eq [OF a(2) s] by (simp add: a(3))
  moreover have "dict_eq sigma b" unfolding perm_on_dict_eq [OF s b(2)] by (simp add: b(3))
  ultimately show "\<exists>a b. compose sigma (identity n) = Inr a \<and> dict_eq a sigma \<and>
                 compose (identity n) sigma = Inr b \<and> dict_eq sigma b"
    using a(1) b(1) by blast
next
  note e = perm_on_identity [of n]
  note i = inverse_perm_on [OF s]
  note v = perm_on_valid [OF s]
  obtain c where c: "compose sigma (inverse sigma) = Inr c" "perm_on n c"
      "\<And>i. i \<in> {1..n} \<Longrightarrow> ap c i = ap sigma (ap (inverse sigma) i)"
    using compose_perm_on_ex [OF s i] by blast
  obtain d where d: "compose (inverse sigma) sigma = Inr d" "perm_on n d"
      "\<And>i. i \<in> {1..n} \<Longrightarrow> ap d i = ap (inverse sigma) (ap sigma i)"
    using compose_perm_on_ex [OF i s] by blast
  have "dict_eq c (identity n)"
    unfolding perm_on_dict_eq [OF c(2) e]
    using ap_inverse_right [OF v] perm_on_keys [OF s] by (simp add: c(3))
  moreover have "dict_eq (identity n) d"
    unfolding perm_on_dict_eq [OF e d(2)]
    using ap_inverse_left [OF v] perm_on_keys [OF s] by (simp add: d(3))
  ultimately show "\<exists>c d. compose sigma (inverse sigma) = Inr c \<and> dict_eq c (identity n) \<and>
                 compose (inverse sigma) sigma = Inr d \<and> dict_eq (identity n) d"
    using c(1) d(1) by blast
qed

lemma perm_on_3_ex1: "perm_on 3 [(1, 2), (2, 1), (3, 3)]"
  by (auto simp: perm_on_def valid_perm_def wf_dict_def keys_def values_of_def)

lemma perm_on_3_ex2: "perm_on 3 [(1, 1), (2, 3), (3, 2)]"
  by (auto simp: perm_on_def valid_perm_def wf_dict_def keys_def values_of_def)

lemma perm_on_3_ex3: "perm_on 3 [(3, 1), (1, 2), (2, 3)]"
  by (auto simp: perm_on_def valid_perm_def wf_dict_def keys_def values_of_def)

theorem compose_group_axioms_witness:
  "perm_on 3 [(1, 2), (2, 1), (3, 3)] \<and> perm_on 3 [(1, 1), (2, 3), (3, 2)] \<and> perm_on 3 [(3, 1), (1, 2), (2, 3)]
   \<and> (\<exists>c d. compose [(1, 2), (2, 1), (3, 3)] (inverse [(1, 2), (2, 1), (3, 3)]) = Inr c \<and>
             dict_eq c (identity 3) \<and>
             compose (inverse [(1, 2), (2, 1), (3, 3)]) [(1, 2), (2, 1), (3, 3)] = Inr d \<and>
             dict_eq (identity 3) d)"
  using compose_group_axioms [OF perm_on_3_ex1 perm_on_3_ex2 perm_on_3_ex3]
    perm_on_3_ex1 perm_on_3_ex2 perm_on_3_ex3
  by blast

section \<open>power\<close>

lemma perm_on_length: "perm_on n d \<Longrightarrow> length d = nat n"
proof -
  assume p: "perm_on n d"
  have "length d = length (keys d)" by simp
  also have "\<dots> = card (set (keys d))"
    using perm_on_wf [OF p] by (simp only: wf_dict_def distinct_card)
  also have "\<dots> = nat n" by (simp add: perm_on_keys [OF p])
  finally show ?thesis .
qed

lemma identity_nonpos: "n \<le> 0 \<Longrightarrow> identity n = []"
  by (simp add: identity_tab)

lemma perm_on_identity_length: "perm_on n d \<Longrightarrow> identity (int (length d)) = identity n"
  by (cases "0 \<le> n") (simp_all add: perm_on_length identity_nonpos)

lemma funpow_maps: "perm_on n d \<Longrightarrow> i \<in> {1..n} \<Longrightarrow> (ap d ^^ m) i \<in> {1..n}"
proof (induction m)
  case 0
  then show ?case by simp
next
  case (Suc m)
  then have "ap d ((ap d ^^ m) i) \<in> {1..n}" by (intro perm_on_maps)
  then show ?case by simp
qed

lemma power_loop_perm:
  assumes b: "perm_on n base"
  shows "perm_on n result \<Longrightarrow>
    \<exists>r. power_loop m result base = Inr r \<and> perm_on n r \<and>
        (\<forall>i \<in> {1..n}. ap r i = ap result ((ap base ^^ m) i))"
proof (induction m arbitrary: result)
  case 0
  then show ?case by simp
next
  case (Suc m)
  obtain r1 where r1: "compose result base = Inr r1" "perm_on n r1"
      "\<And>i. i \<in> {1..n} \<Longrightarrow> ap r1 i = ap result (ap base i)"
    using compose_perm_on_ex [OF Suc.prems b] by blast
  from Suc.IH [OF r1(2)] obtain r where r: "power_loop m r1 base = Inr r" "perm_on n r"
      "\<forall>i \<in> {1..n}. ap r i = ap r1 ((ap base ^^ m) i)"
    by blast
  have "\<forall>i \<in> {1..n}. ap r i = ap result ((ap base ^^ Suc m) i)"
    using r(3) funpow_maps [OF b] by (simp add: r1(3))
  with r(1,2) r1(1) show ?case by simp
qed

lemma power_perm:
  assumes s: "perm_on n sigma"
  obtains r where "power sigma k = Inr r" and "perm_on n r"
    and "\<And>i. i \<in> {1..n} \<Longrightarrow> ap r i = ipow sigma k i"
proof -
  note e = perm_on_identity [of n]
  consider "k = 0" | "0 < k" | "k < 0" by linarith
  then show ?thesis
  proof cases
    case 1
    then have "power sigma k = Inr (identity n)"
      by (simp add: power_def perm_on_identity_length [OF s])
    with e that [of "identity n"] 1 show ?thesis by (simp add: ipow_def)
  next
    case 2
    from power_loop_perm [OF s e, of "nat k"] obtain r where
      "power_loop (nat k) (identity n) sigma = Inr r" "perm_on n r"
      "\<forall>i \<in> {1..n}. ap r i = (ap sigma ^^ nat k) i" by auto
    with 2 that [of r] show ?thesis
      by (simp add: power_def perm_on_identity_length [OF s] ipow_def)
  next
    case 3
    from power_loop_perm [OF inverse_perm_on [OF s] e, of "nat (- k)"] obtain r where
      "power_loop (nat (- k)) (identity n) (inverse sigma) = Inr r" "perm_on n r"
      "\<forall>i \<in> {1..n}. ap r i = (ap (inverse sigma) ^^ nat (- k)) i" by auto
    with 3 that [of r] show ?thesis
      by (simp add: power_def perm_on_identity_length [OF s] ipow_def)
  qed
qed

lemma funpow_cancel:
  assumes fg: "\<And>i. i \<in> K \<Longrightarrow> f (g i) = i" and g: "\<And>i. i \<in> K \<Longrightarrow> g i \<in> K"
  shows "i \<in> K \<Longrightarrow> (f ^^ a) ((g ^^ b) i) = (if b \<le> a then (f ^^ (a - b)) i else (g ^^ (b - a)) i)"
proof (induction b arbitrary: a)
  case 0
  then show ?case by simp
next
  case (Suc b)
  have gk: "(g ^^ b) i \<in> K" using Suc.prems g by (induction b) simp_all
  show ?case
  proof (cases a)
    case 0
    then show ?thesis by simp
  next
    case (Suc a')
    have "(f ^^ Suc a') ((g ^^ Suc b) i) = (f ^^ a') (f (g ((g ^^ b) i)))"
      by (simp add: funpow_swap1)
    also have "\<dots> = (f ^^ a') ((g ^^ b) i)" using fg [OF gk] by simp
    finally show ?thesis using Suc.IH [OF Suc.prems, of a'] Suc by simp
  qed
qed

lemma ipow_add:
  assumes s: "perm_on n sigma" and i: "i \<in> {1..n}"
  shows "ipow sigma (a + b) i = ipow sigma a (ipow sigma b i)"
proof -
  let ?f = "ap sigma" and ?g = "ap (inverse sigma)"
  note v = perm_on_valid [OF s]
  note si = inverse_perm_on [OF s]
  have fg: "\<And>i. i \<in> {1..n} \<Longrightarrow> ?f (?g i) = i"
    using ap_inverse_right [OF v] perm_on_keys [OF s] by simp
  have gf: "\<And>i. i \<in> {1..n} \<Longrightarrow> ?g (?f i) = i"
    using ap_inverse_left [OF v] perm_on_keys [OF s] by simp
  have fK: "\<And>i. i \<in> {1..n} \<Longrightarrow> ?f i \<in> {1..n}" by (rule perm_on_maps [OF s])
  have gK: "\<And>i. i \<in> {1..n} \<Longrightarrow> ?g i \<in> {1..n}" by (rule perm_on_maps [OF si])
  consider "0 \<le> a" "0 \<le> b" | "a < 0" "b < 0" | "0 \<le> a" "b < 0" | "a < 0" "0 \<le> b"
    by linarith
  then show ?thesis
  proof cases
    case 1
    then have "nat (a + b) = nat a + nat b" by simp
    with 1 show ?thesis by (simp add: ipow_def funpow_add)
  next
    case 2
    then have "nat (- (a + b)) = nat (- a) + nat (- b)" by simp
    with 2 show ?thesis by (simp add: ipow_def funpow_add)
  next
    case 3
    have "(?f ^^ nat a) ((?g ^^ nat (- b)) i)
        = (if nat (- b) \<le> nat a then (?f ^^ (nat a - nat (- b))) i else (?g ^^ (nat (- b) - nat a)) i)"
      using fg gK i by (rule funpow_cancel)
    moreover have "0 \<le> a + b \<Longrightarrow> nat a - nat (- b) = nat (a + b) \<and> nat (- b) \<le> nat a"
      using 3 by linarith
    moreover have "a + b < 0 \<Longrightarrow> nat (- b) - nat a = nat (- (a + b)) \<and> \<not> nat (- b) \<le> nat a"
      using 3 by linarith
    ultimately show ?thesis using 3 by (cases "0 \<le> a + b") (simp_all add: ipow_def)
  next
    case 4
    have "(?g ^^ nat (- a)) ((?f ^^ nat b) i)
        = (if nat b \<le> nat (- a) then (?g ^^ (nat (- a) - nat b)) i else (?f ^^ (nat b - nat (- a))) i)"
      using gf fK i by (rule funpow_cancel)
    moreover have "0 \<le> a + b \<Longrightarrow> nat b - nat (- a) = nat (a + b) \<and> (nat b \<le> nat (- a) \<longrightarrow> a + b = 0)"
      using 4 by linarith
    moreover have "a + b < 0 \<Longrightarrow> nat (- a) - nat b = nat (- (a + b)) \<and> nat b \<le> nat (- a)"
      using 4 by linarith
    ultimately show ?thesis using 4
      by (cases "0 \<le> a + b"; cases "nat b \<le> nat (- a)") (simp_all add: ipow_def)
  qed
qed

text \<open>
  C5: for a valid permutation \<open>sigma\<close> on \<open>{1, ..., n}\<close> and all integers \<open>a\<close> and
  \<open>b\<close>, the three powers and the composition return and
  \<open>power(sigma, a + b) == compose(power(sigma, a), power(sigma, b))\<close>; moreover
  \<open>power(sigma, -1) == inverse(sigma)\<close> and \<open>power(sigma, 0) == identity(n)\<close>.
\<close>

theorem power_laws:
  assumes s: "perm_on n sigma"
  shows "(\<exists>pab pa pb c. power sigma (a + b) = Inr pab \<and> power sigma a = Inr pa \<and>
                        power sigma b = Inr pb \<and> compose pa pb = Inr c \<and> dict_eq pab c)
       \<and> (\<exists>m. power sigma (- 1) = Inr m \<and> dict_eq m (inverse sigma))
       \<and> (\<exists>z. power sigma 0 = Inr z \<and> dict_eq z (identity n))"
proof (intro conjI)
  obtain pab where pab: "power sigma (a + b) = Inr pab" "perm_on n pab"
      "\<And>i. i \<in> {1..n} \<Longrightarrow> ap pab i = ipow sigma (a + b) i"
    using power_perm [OF s] by blast
  obtain pa where pa: "power sigma a = Inr pa" "perm_on n pa"
      "\<And>i. i \<in> {1..n} \<Longrightarrow> ap pa i = ipow sigma a i"
    using power_perm [OF s] by blast
  obtain pb where pb: "power sigma b = Inr pb" "perm_on n pb"
      "\<And>i. i \<in> {1..n} \<Longrightarrow> ap pb i = ipow sigma b i"
    using power_perm [OF s] by blast
  obtain c where c: "compose pa pb = Inr c" "perm_on n c"
      "\<And>i. i \<in> {1..n} \<Longrightarrow> ap c i = ap pa (ap pb i)"
    using compose_perm_on_ex [OF pa(2) pb(2)] by blast
  have "dict_eq pab c"
    unfolding perm_on_dict_eq [OF pab(2) c(2)]
  proof
    fix i assume i: "i \<in> {1..n}"
    then have "ap pb i \<in> {1..n}" by (rule perm_on_maps [OF pb(2)])
    then have "ap c i = ipow sigma a (ipow sigma b i)" using i by (simp add: c(3) pa(3) pb(3))
    then show "ap pab i = ap c i" using i by (simp add: pab(3) ipow_add [OF s])
  qed
  with pab(1) pa(1) pb(1) c(1)
  show "\<exists>pab pa pb c. power sigma (a + b) = Inr pab \<and> power sigma a = Inr pa \<and>
                        power sigma b = Inr pb \<and> compose pa pb = Inr c \<and> dict_eq pab c"
    by blast
next
  obtain m where m: "power sigma (- 1) = Inr m" "perm_on n m"
      "\<And>i. i \<in> {1..n} \<Longrightarrow> ap m i = ipow sigma (- 1) i"
    using power_perm [OF s] by blast
  have "dict_eq m (inverse sigma)"
    unfolding perm_on_dict_eq [OF m(2) inverse_perm_on [OF s]]
    by (simp add: m(3) ipow_def)
  with m(1) show "\<exists>m. power sigma (- 1) = Inr m \<and> dict_eq m (inverse sigma)" by blast
next
  obtain z where z: "power sigma 0 = Inr z" "perm_on n z"
      "\<And>i. i \<in> {1..n} \<Longrightarrow> ap z i = ipow sigma 0 i"
    using power_perm [OF s] by blast
  have "dict_eq z (identity n)"
    unfolding perm_on_dict_eq [OF z(2) perm_on_identity]
    by (simp add: z(3) ipow_def)
  with z(1) show "\<exists>z. power sigma 0 = Inr z \<and> dict_eq z (identity n)" by blast
qed

lemma power_ex_m2: "power [(1, 2), (2, 3), (3, 1)] (- 2) = Inr [(2, 3), (3, 1), (1, 2)]"
  by code_simp

lemma power_ex_3: "power [(1, 2), (2, 3), (3, 1)] 3 = Inr [(1, 1), (2, 2), (3, 3)]"
  by code_simp

lemma power_ex_1: "power [(1, 2), (2, 3), (3, 1)] 1 = Inr [(1, 2), (2, 3), (3, 1)]"
  by code_simp

lemma perm_on_3_cycle: "perm_on 3 [(1, 2), (2, 3), (3, 1)]"
  by (auto simp: perm_on_def valid_perm_def wf_dict_def keys_def values_of_def)

theorem power_laws_witness:
  "perm_on 3 [(1, 2), (2, 3), (3, 1)]
   \<and> (\<exists>c. compose [(1, 1), (2, 2), (3, 3)] [(2, 3), (3, 1), (1, 2)] = Inr c \<and>
           dict_eq [(1, 2), (2, 3), (3, 1)] c)"
  using power_laws [OF perm_on_3_cycle, of 3 "- 2"] perm_on_3_cycle
  by (simp add: power_ex_m2 power_ex_3 power_ex_1)

section \<open>order\<close>

lemma funpow_inj: "perm_on n d \<Longrightarrow> inj_on (ap d ^^ m) {1..n}"
proof (induction m)
  case 0
  then show ?case by simp
next
  case (Suc m)
  have "inj_on (ap d \<circ> (ap d ^^ m)) {1..n}"
  proof (rule comp_inj_on)
    show "inj_on (ap d ^^ m) {1..n}" using Suc by simp
    have "(ap d ^^ m) ` {1..n} \<subseteq> {1..n}" using funpow_maps [OF Suc.prems] by blast
    then show "inj_on (ap d) ((ap d ^^ m) ` {1..n})"
      using perm_on_inj [OF Suc.prems] by (rule inj_on_subset [rotated])
  qed
  then show ?case by (simp add: comp_def)
qed

lemma point_period:
  assumes p: "perm_on n d" and i: "i \<in> {1..n}"
  shows "\<exists>l. 0 < l \<and> l \<le> nat n \<and> (ap d ^^ l) i = i"
proof -
  let ?h = "\<lambda>j. (ap d ^^ j) i"
  have "?h ` {0..nat n} \<subseteq> {1..n}" using funpow_maps [OF p i] by blast
  then have "card (?h ` {0..nat n}) \<le> card {1..n}" by (intro card_mono) simp_all
  then have "card (?h ` {0..nat n}) < card {0..nat n}" by simp
  then have "\<not> inj_on ?h {0..nat n}" by (rule pigeonhole)
  then obtain a b where ab: "a \<le> nat n" "b \<le> nat n" "a \<noteq> b" "?h a = ?h b"
    by (auto simp: inj_on_def)
  have main: "\<exists>l. 0 < l \<and> l \<le> nat n \<and> (ap d ^^ l) i = i"
    if lt: "a < b" and bn: "b \<le> nat n" and eq: "(ap d ^^ a) i = (ap d ^^ b) i" for a b
  proof -
    have "(ap d ^^ b) i = (ap d ^^ (a + (b - a))) i" using lt by simp
    also have "\<dots> = (ap d ^^ a) ((ap d ^^ (b - a)) i)" by (simp only: funpow_add comp_apply)
    finally have "(ap d ^^ a) i = (ap d ^^ a) ((ap d ^^ (b - a)) i)" using eq by simp
    then have "i = (ap d ^^ (b - a)) i"
      using funpow_inj [OF p, of a] i funpow_maps [OF p i, of "b - a"] by (simp add: inj_on_def)
    with lt bn show ?thesis by (intro exI [of _ "b - a"]) simp
  qed
  from ab show ?thesis
    using main [of a b] main [of b a] by (cases "a < b") simp_all
qed

lemma funpow_mult_fix: "(f ^^ l) i = i \<Longrightarrow> (f ^^ (l * q)) i = i"
  by (induction q) (simp_all add: funpow_add)

lemma pid_fact: "perm_on n d \<Longrightarrow> pid n d (fact (nat n))"
  unfolding pid_def
proof
  fix i assume p: "perm_on n d" and i: "i \<in> {1..n}"
  from point_period [OF p i] obtain l where l: "0 < l" "l \<le> nat n" "(ap d ^^ l) i = i" by blast
  then have "l dvd fact (nat n)" by (intro dvd_fact) simp_all
  then obtain q where "fact (nat n) = l * q" ..
  with funpow_mult_fix [OF l(3), of q] show "(ap d ^^ fact (nat n)) i = i" by simp
qed

lemma pid_least_dvd:
  assumes m0: "0 < m0" "pid n d m0" and least: "\<And>m'. 0 < m' \<Longrightarrow> m' < m0 \<Longrightarrow> \<not> pid n d m'"
    and m: "pid n d m"
  shows "m0 dvd m"
proof -
  let ?r = "m mod m0" and ?q = "m div m0"
  have "pid n d ?r"
    unfolding pid_def
  proof
    fix i assume i: "i \<in> {1..n}"
    have "(ap d ^^ m) i = (ap d ^^ (?r + m0 * ?q)) i" by simp
    also have "\<dots> = (ap d ^^ ?r) ((ap d ^^ (m0 * ?q)) i)" by (simp only: funpow_add comp_apply)
    also have "(ap d ^^ (m0 * ?q)) i = i"
      using m0(2) i by (intro funpow_mult_fix) (simp add: pid_def)
    finally show "(ap d ^^ ?r) i = i" using m i by (simp add: pid_def)
  qed
  moreover have "?r < m0" using m0(1) by simp
  ultimately have "\<not> 0 < ?r" using least by blast
  then show ?thesis by (simp add: dvd_eq_mod_eq_0)
qed

lemma order_loop_returns:
  assumes s: "perm_on n sigma"
    and m: "pid n sigma m" and least: "\<And>m'. 0 < m' \<Longrightarrow> m' < m \<Longrightarrow> \<not> pid n sigma m'"
  shows "perm_on n cur \<Longrightarrow> \<forall>i \<in> {1..n}. ap cur i = (ap sigma ^^ j) i \<Longrightarrow> 0 < j \<Longrightarrow> j \<le> m \<Longrightarrow>
         order_loop sigma (identity n) cur k = Some (Inr (k + int (m - j)))"
proof (induction "m - j" arbitrary: j cur k)
  case 0
  then have "j = m" by simp
  with 0 m have "dict_eq cur (identity n)"
    by (simp add: perm_on_dict_eq [OF "0.prems"(1) perm_on_identity] pid_def)
  then show ?case using \<open>j = m\<close> by (subst order_loop.simps) simp
next
  case (Suc x)
  then have jm: "j < m" by simp
  with Suc.prems least have "\<not> pid n sigma j" by simp
  with Suc.prems(2) have ne: "\<not> dict_eq cur (identity n)"
    by (simp add: perm_on_dict_eq [OF Suc.prems(1) perm_on_identity] pid_def)
  obtain c where c: "compose cur sigma = Inr c" "perm_on n c"
      "\<And>i. i \<in> {1..n} \<Longrightarrow> ap c i = ap cur (ap sigma i)"
    using compose_perm_on_ex [OF Suc.prems(1) s] by blast
  have "\<forall>i \<in> {1..n}. ap c i = (ap sigma ^^ Suc j) i"
    using Suc.prems(2) perm_on_maps [OF s] by (simp add: c(3) funpow_swap1)
  moreover have "x = m - Suc j" using Suc.hyps(2) by simp
  ultimately have "order_loop sigma (identity n) c (k + 1) = Some (Inr (k + 1 + int (m - Suc j)))"
    using c(2) jm by (intro Suc.hyps(1)) simp_all
  also have "k + 1 + int (m - Suc j) = k + int (m - j)" using jm by simp
  finally show ?case using ne c(1) by (subst order_loop.simps) simp
qed

lemma power_pid:
  assumes s: "perm_on n sigma" and j: "0 < j"
  shows "\<exists>p. power sigma (int j) = Inr p \<and> (dict_eq p (identity n) \<longleftrightarrow> pid n sigma j)"
proof -
  obtain p where p: "power sigma (int j) = Inr p" "perm_on n p"
      "\<And>i. i \<in> {1..n} \<Longrightarrow> ap p i = ipow sigma (int j) i"
    using power_perm [OF s] by blast
  have "dict_eq p (identity n) \<longleftrightarrow> pid n sigma j"
    by (simp add: perm_on_dict_eq [OF p(2) perm_on_identity] pid_def p(3) ipow_def)
  with p(1) show ?thesis by blast
qed

lemma order_identity: "order (identity n) = Some (Inr 1)"
proof -
  have e: "perm_on n (identity n)" by (rule perm_on_identity)
  have "dict_of (identity n) = identity n"
    using perm_on_wf [OF e] by (simp only: wf_dict_def keys_def dict_of_distinct)
  moreover have "dict_eq (identity n) (identity n)"
    by (simp add: perm_on_dict_eq [OF e e])
  ultimately show ?thesis
    by (simp add: order_def perm_on_identity_length [OF e] order_loop.simps)
qed

text \<open>
  C4: for a valid permutation \<open>sigma\<close> on \<open>{1, ..., n}\<close> the loop of \<open>order\<close> ends
  and returns some \<open>k \<ge> 1\<close> with \<open>power(sigma, k) == identity(n)\<close>, no \<open>j\<close> with
  \<open>1 \<le> j < k\<close> has \<open>power(sigma, j) == identity(n)\<close>, and \<open>k\<close> divides \<open>n!\<close>. The
  identity has order 1 (for every \<open>n\<close>, so for \<open>n \<le> 1\<close>).
\<close>

theorem order_least:
  assumes s: "perm_on n sigma"
  shows "\<exists>k. order sigma = Some (Inr k) \<and> 1 \<le> k
            \<and> (\<exists>p. power sigma k = Inr p \<and> dict_eq p (identity n))
            \<and> (\<forall>j. 1 \<le> j \<and> j < k \<longrightarrow> (\<exists>p. power sigma j = Inr p \<and> \<not> dict_eq p (identity n)))
            \<and> k dvd fact (nat n)
            \<and> order (identity n) = Some (Inr 1)"
proof -
  define m where "m = (LEAST m. 0 < m \<and> pid n sigma m)"
  have ex: "0 < (fact (nat n) :: nat) \<and> pid n sigma (fact (nat n))"
    using pid_fact [OF s] by simp
  have m: "0 < m" "pid n sigma m"
    using LeastI [of "\<lambda>m. 0 < m \<and> pid n sigma m", OF ex] by (simp_all add: m_def)
  have least: "\<not> pid n sigma m'" if "0 < m'" "m' < m" for m'
    using not_less_Least [of m' "\<lambda>m. 0 < m \<and> pid n sigma m"] that by (simp add: m_def)
  have cur: "dict_of sigma = sigma"
    using perm_on_wf [OF s] by (simp only: wf_dict_def keys_def dict_of_distinct)
  have "order_loop sigma (identity n) sigma 1 = Some (Inr (1 + int (m - 1)))"
    using s m(1) by (intro order_loop_returns [OF s m(2) least, where j = 1]) simp_all
  then have ord: "order sigma = Some (Inr (int m))"
    using m(1) by (simp add: order_def cur perm_on_identity_length [OF s])
  have pw: "\<exists>p. power sigma (int m) = Inr p \<and> dict_eq p (identity n)"
    using power_pid [OF s m(1)] m(2) by simp
  have small: "\<forall>j. 1 \<le> j \<and> j < int m \<longrightarrow> (\<exists>p. power sigma j = Inr p \<and> \<not> dict_eq p (identity n))"
  proof (intro allI impI)
    fix j :: int assume j: "1 \<le> j \<and> j < int m"
    then have "0 < nat j" "nat j < m" by linarith+
    from power_pid [OF s this(1)] least [OF this] j
    show "\<exists>p. power sigma j = Inr p \<and> \<not> dict_eq p (identity n)" by simp
  qed
  have "m dvd fact (nat n)"
    using m least pid_fact [OF s] by (intro pid_least_dvd [of m n sigma]) simp_all
  then have "int m dvd fact (nat n)"
    by (metis of_nat_dvd_iff of_nat_fact)
  with ord m(1) pw small order_identity [of n] show ?thesis
    by (intro exI [of _ "int m"]) simp
qed

lemma perm_on_4_cycle: "perm_on 4 [(1, 2), (2, 3), (3, 4), (4, 1)]"
  by (auto simp: perm_on_def valid_perm_def wf_dict_def keys_def values_of_def)

lemma order_4_cycle: "order [(1, 2), (2, 3), (3, 4), (4, 1)] = Some (Inr 4)"
  by code_simp

theorem order_least_witness:
  "perm_on 4 [(1, 2), (2, 3), (3, 4), (4, 1)]
   \<and> order [(1, 2), (2, 3), (3, 4), (4, 1)] = Some (Inr 4)
   \<and> (\<exists>p. power [(1, 2), (2, 3), (3, 4), (4, 1)] 4 = Inr p \<and> dict_eq p (identity 4))
   \<and> (4 :: int) dvd fact (nat 4)"
  using order_least [OF perm_on_4_cycle] perm_on_4_cycle
  by (simp add: order_4_cycle)

section \<open>generate\_Sn\<close>

lemma drop_nth_set:
  assumes "distinct xs" and "i < length xs"
  shows "set (take i xs @ drop (Suc i) xs) = set xs - {xs ! i}"
    and "distinct (take i xs @ drop (Suc i) xs)"
proof -
  from assms(2) have split: "xs = take i xs @ xs ! i # drop (Suc i) xs" by (rule id_take_nth_drop)
  with assms(1) have d: "distinct (take i xs @ xs ! i # drop (Suc i) xs)" by simp
  from d show "distinct (take i xs @ drop (Suc i) xs)" by simp
  have "set xs = set (take i xs @ xs ! i # drop (Suc i) xs)" using split by simp
  moreover from d have "xs ! i \<notin> set (take i xs @ drop (Suc i) xs)" by simp
  ultimately show "set (take i xs @ drop (Suc i) xs) = set xs - {xs ! i}" by auto
qed

lemma length_permutations_py: "length (permutations_py xs) = fact (length xs)"
proof (induction xs rule: permutations_py.induct)
  case (1 pool)
  show ?case
  proof (cases "pool = []")
    case True
    then show ?thesis by (subst permutations_py.simps) simp
  next
    case False
    then obtain m where m: "length pool = Suc m" by (cases pool) simp_all
    have blk: "length (permutations_py (take i pool @ drop (Suc i) pool)) = fact m"
      if "i < length pool" for i
      using 1 [OF False, of i] that m by (auto simp: less_Suc_eq)
    have "length (permutations_py pool)
        = sum_list (map (\<lambda>i. length (map ((#) (pool ! i))
              (permutations_py (take i pool @ drop (Suc i) pool)))) [0..<length pool])"
      using False by (subst permutations_py.simps) (simp add: length_concat comp_def)
    also have "\<dots> = sum_list (map (\<lambda>i. fact m) [0..<length pool])"
      by (rule arg_cong [where f = sum_list], rule map_cong [OF refl]) (simp add: blk)
    also have "\<dots> = fact (length pool)" by (simp add: sum_list_triv m)
    finally show ?thesis .
  qed
qed

lemma set_permutations_py:
  "distinct xs \<Longrightarrow> set (permutations_py xs) = {p. distinct p \<and> set p = set xs}"
proof (induction xs rule: permutations_py.induct)
  case (1 pool)
  show ?case
  proof (cases "pool = []")
    case True
    then show ?thesis by (subst permutations_py.simps) auto
  next
    case False
    let ?rest = "\<lambda>i. take i pool @ drop (Suc i) pool"
    have IH: "set (permutations_py (?rest i)) = {p. distinct p \<and> set p = set pool - {pool ! i}}"
      if "i < length pool" for i
      using 1(1) [OF False, of i] that drop_nth_set [OF "1.prems" that] by simp
    have unf: "set (permutations_py pool)
        = (\<Union>i \<in> {0..<length pool}. (#) (pool ! i) ` set (permutations_py (?rest i)))"
      using False by (subst permutations_py.simps) simp
    show ?thesis
    proof (intro set_eqI iffI)
      fix p assume "p \<in> set (permutations_py pool)"
      then obtain i q where i: "i < length pool" and q: "q \<in> set (permutations_py (?rest i))"
        and p: "p = pool ! i # q" unfolding unf by auto
      from q IH [OF i] have dq: "distinct q" and sq: "set q = set pool - {pool ! i}" by simp_all
      from i have mem: "pool ! i \<in> set pool" by simp
      have "distinct p" using dq by (simp add: p sq)
      moreover have "set p = set pool" by (simp add: p sq insert_absorb [OF mem])
      ultimately show "p \<in> {p. distinct p \<and> set p = set pool}" by simp
    next
      fix p assume "p \<in> {p. distinct p \<and> set p = set pool}"
      then have dp: "distinct p" and sp: "set p = set pool" by simp_all
      from False sp obtain a q where p: "p = a # q" by (cases p) auto
      with sp have "a \<in> set pool" by auto
      then obtain i where i: "i < length pool" "pool ! i = a" by (auto simp: in_set_conv_nth)
      from dp p have dq: "distinct q" and aq: "a \<notin> set q" by simp_all
      have eq: "set pool = insert a (set q)" using sp p by (metis list.set(2))
      have "set q = set pool - {a}" unfolding eq by (rule Diff_insert_absorb [OF aq, symmetric])
      with dq IH [OF i(1)] i(2) have "q \<in> set (permutations_py (?rest i))" by simp
      with i p show "p \<in> set (permutations_py pool)" unfolding unf by auto
    qed
  qed
qed

lemma card_distinct_lists: "finite A \<Longrightarrow> card {p. distinct p \<and> set p = A} = fact (card A)"
proof -
  assume fin: "finite A"
  have "{p. distinct p \<and> set p = A} = {p. length p = card A \<and> distinct p \<and> set p \<subseteq> A}"
  proof (intro set_eqI iffI)
    fix p assume "p \<in> {p. distinct p \<and> set p = A}"
    then show "p \<in> {p. length p = card A \<and> distinct p \<and> set p \<subseteq> A}"
      by (auto simp: distinct_card)
  next
    fix p assume "p \<in> {p. length p = card A \<and> distinct p \<and> set p \<subseteq> A}"
    then have l: "length p = card A" and d: "distinct p" and s: "set p \<subseteq> A" by simp_all
    from d l have "card (set p) = card A" by (simp add: distinct_card)
    with fin s have "set p = A" by (simp add: card_subset_eq)
    with d show "p \<in> {p. distinct p \<and> set p = A}" by simp
  qed
  also have "card \<dots> = \<Prod>{card A - card A + 1..card A}"
    using fin by (intro card_lists_distinct_length_eq) simp_all
  also have "\<dots> = fact (card A)" by (simp add: fact_prod)
  finally show ?thesis .
qed

lemma distinct_permutations_py: "distinct xs \<Longrightarrow> distinct (permutations_py xs)"
proof -
  assume d: "distinct xs"
  have "card (set (permutations_py xs)) = fact (card (set xs))"
    by (simp add: set_permutations_py [OF d] card_distinct_lists)
  also have "\<dots> = length (permutations_py xs)"
    using d by (simp add: length_permutations_py distinct_card)
  finally show ?thesis by (rule card_distinct)
qed

lemma length_range1 [simp]: "length (range1 n) = nat n"
  by (simp add: range1_def)

lemma permutations_range1:
  "p \<in> set (permutations_py (range1 n)) \<longleftrightarrow> distinct p \<and> set p = {1..n}"
  by (simp add: set_permutations_py range1_def)

lemma permutations_range1_length:
  "p \<in> set (permutations_py (range1 n)) \<Longrightarrow> length p = nat n"
proof -
  assume "p \<in> set (permutations_py (range1 n))"
  then have "distinct p" "set p = {1..n}" by (simp_all add: permutations_range1)
  then show ?thesis using distinct_card [of p] by simp
qed

lemma generate_Sn_zip:
  "generate_Sn n = map (\<lambda>perm. zip (range1 n) perm) (permutations_py (range1 n))"
  unfolding generate_Sn_def
proof (rule map_cong [OF refl])
  fix p assume "p \<in> set (permutations_py (range1 n))"
  then have "length p = length (range1 n)" by (simp add: permutations_range1_length)
  then have "map fst (zip (range1 n) p) = range1 n" by simp
  then have "distinct (map fst (zip (range1 n) p))" by (simp add: range1_def)
  then show "dict_of (zip (range1 n) p) = zip (range1 n) p" by (rule dict_of_distinct)
qed

lemma generate_Sn_iff:
  "s \<in> set (generate_Sn n) \<longleftrightarrow> perm_on n s \<and> keys s = [1..n]"
proof
  assume "s \<in> set (generate_Sn n)"
  then obtain p where p: "p \<in> set (permutations_py (range1 n))" and s: "s = zip (range1 n) p"
    by (auto simp: generate_Sn_zip)
  from p have l: "length p = length (range1 n)" by (simp add: permutations_range1_length)
  from p have dp: "distinct p" "set p = {1..n}" by (simp_all add: permutations_range1)
  have k: "keys s = [1..n]" using l by (simp add: s keys_def range1_def)
  have v: "values_of s = p" using l by (simp add: s values_of_def)
  show "perm_on n s \<and> keys s = [1..n]"
    using dp by (simp add: perm_on_def valid_perm_def wf_dict_def k v)
next
  assume a: "perm_on n s \<and> keys s = [1..n]"
  then have p: "perm_on n s" and k: "keys s = [1..n]" by simp_all
  let ?p = "values_of s"
  have "distinct ?p" using perm_on_valid [OF p] by (rule valid_perm_distinct_values)
  moreover have "set ?p = {1..n}" using p unfolding perm_on_def valid_perm_def by metis
  ultimately have "?p \<in> set (permutations_py (range1 n))" by (simp add: permutations_range1)
  moreover have "zip (range1 n) ?p = s"
    using zip_map_fst_snd [of s] k by (simp only: range1_def keys_def values_of_def)
  ultimately show "s \<in> set (generate_Sn n)" by (force simp: generate_Sn_zip)
qed

lemma length_generate_Sn: "length (generate_Sn n) = fact (nat n)"
  by (simp add: generate_Sn_def length_permutations_py)

lemma distinct_generate_Sn: "distinct (generate_Sn n)"
proof -
  have "distinct (range1 n)" by (simp add: range1_def)
  then have "distinct (permutations_py (range1 n))"
    by (rule distinct_permutations_py)
  moreover have "inj_on (\<lambda>perm. zip (range1 n) perm) (set (permutations_py (range1 n)))"
  proof (rule inj_onI)
    fix p q assume p: "p \<in> set (permutations_py (range1 n))" and q: "q \<in> set (permutations_py (range1 n))"
      and eq: "zip (range1 n) p = zip (range1 n) q"
    have lp: "length (range1 n) = length p" and lq: "length (range1 n) = length q"
      using p q by (simp_all add: permutations_range1_length)
    have "map snd (zip (range1 n) p) = p" using lp by (rule map_snd_zip)
    moreover have "map snd (zip (range1 n) q) = q" using lq by (rule map_snd_zip)
    ultimately show "p = q" using eq by metis
  qed
  ultimately show ?thesis unfolding generate_Sn_zip distinct_map by blast
qed

lemma canonical_form:
  assumes p: "perm_on n sigma"
  shows "map (\<lambda>i. (i, ap sigma i)) [1..n] \<in> set (generate_Sn n)"
    and "dict_eq (map (\<lambda>i. (i, ap sigma i)) [1..n]) sigma"
proof -
  let ?c = "map (\<lambda>i. (i, ap sigma i)) [1..n]"
  have c: "perm_on n ?c" using perm_on_image [OF p] by (intro perm_on_tab) simp_all
  then show "?c \<in> set (generate_Sn n)" by (simp add: generate_Sn_iff)
  show "dict_eq ?c sigma"
    unfolding perm_on_dict_eq [OF c p] by (simp add: ap_tab)
qed

text \<open>
  C6: for every \<open>n\<close> (so for \<open>n \<ge> 0\<close>), \<open>generate_Sn n\<close> is a list without
  duplicates of exactly \<open>n!\<close> dicts, each a valid permutation on \<open>{1, ..., n}\<close> with its
  keys in the order \<open>1, ..., n\<close>, and every valid permutation on \<open>{1, ..., n}\<close> is equal
  (as a dict) to a member of the list. The list is a function of \<open>n\<close> alone: the model
  has no state, so two calls give the same sequence.
\<close>

theorem generate_Sn_complete:
  "distinct (generate_Sn n)
   \<and> length (generate_Sn n) = fact (nat n)
   \<and> (\<forall>s \<in> set (generate_Sn n). perm_on n s \<and> keys s = [1..n])
   \<and> (\<forall>sigma. perm_on n sigma \<longrightarrow> (\<exists>s \<in> set (generate_Sn n). dict_eq s sigma))"
proof (intro conjI ballI allI impI)
  show "distinct (generate_Sn n)" by (rule distinct_generate_Sn)
  show "length (generate_Sn n) = fact (nat n)" by (rule length_generate_Sn)
  show "perm_on n s" "keys s = [1..n]" if "s \<in> set (generate_Sn n)" for s
    using that by (simp_all add: generate_Sn_iff)
  show "\<exists>s \<in> set (generate_Sn n). dict_eq s sigma" if "perm_on n sigma" for sigma
    using canonical_form [OF that] by blast
qed

lemma generate_Sn_2: "generate_Sn 2 = [[(1, 1), (2, 2)], [(1, 2), (2, 1)]]"
  by code_simp

lemma perm_on_2_swap: "perm_on 2 [(2, 1), (1, 2)]"
  by (auto simp: perm_on_def valid_perm_def wf_dict_def keys_def values_of_def)

lemma perm_on_2_swap': "perm_on 2 [(1, 2), (2, 1)]"
  by (auto simp: perm_on_def valid_perm_def wf_dict_def keys_def values_of_def)

theorem generate_Sn_complete_witness:
  "perm_on 2 [(2, 1), (1, 2)] \<and> perm_on 2 [(1, 2), (2, 1)]
   \<and> length (generate_Sn 2) = 2
   \<and> (dict_eq [(1, 1), (2, 2)] [(2, 1), (1, 2)] \<or> dict_eq [(1, 2), (2, 1)] [(2, 1), (1, 2)])"
proof -
  note c = generate_Sn_complete [of 2]
  from c have "length (generate_Sn 2) = fact (nat 2)" by (rule conjunct1 [OF conjunct2])
  then have len: "length (generate_Sn 2) = 2" by (simp add: fact_numeral)
  from c have "\<forall>sigma. perm_on 2 sigma \<longrightarrow> (\<exists>s \<in> set (generate_Sn 2). dict_eq s sigma)"
    by (rule conjunct2 [OF conjunct2 [OF conjunct2]])
  with perm_on_2_swap obtain s where s: "s \<in> set (generate_Sn 2)" "dict_eq s [(2, 1), (1, 2)]"
    by blast
  from s(1) have "s = [(1, 1), (2, 2)] \<or> s = [(1, 2), (2, 1)]" by (simp add: generate_Sn_2)
  with s(2) have "dict_eq [(1, 1), (2, 2)] [(2, 1), (1, 2)] \<or> dict_eq [(1, 2), (2, 1)] [(2, 1), (1, 2)]"
    by blast
  with len perm_on_2_swap perm_on_2_swap' show ?thesis by blast
qed

section \<open>to\_cycles\<close>

lemma valid_funpow_maps:
  "valid_perm d \<Longrightarrow> i \<in> set (keys d) \<Longrightarrow> (ap d ^^ m) i \<in> set (keys d)"
proof (induction m)
  case 0
  then show ?case by simp
next
  case (Suc m)
  then have "ap d ((ap d ^^ m) i) \<in> set (keys d)" by (intro valid_perm_maps)
  then show ?case by simp
qed

lemma valid_funpow_inj: "valid_perm d \<Longrightarrow> inj_on (ap d ^^ m) (set (keys d))"
proof (induction m)
  case 0
  then show ?case by simp
next
  case (Suc m)
  have "inj_on (ap d \<circ> (ap d ^^ m)) (set (keys d))"
  proof (rule comp_inj_on)
    show "inj_on (ap d ^^ m) (set (keys d))" using Suc by simp
    have "(ap d ^^ m) ` set (keys d) \<subseteq> set (keys d)" using valid_funpow_maps [OF Suc.prems] by blast
    then show "inj_on (ap d) ((ap d ^^ m) ` set (keys d))"
      using valid_perm_inj [OF Suc.prems] by (rule inj_on_subset [rotated])
  qed
  then show ?case by (simp add: comp_def)
qed

lemma orb_Suc: "orb sigma s (Suc k) = orb sigma s k @ [(ap sigma ^^ k) s]"
  by (simp add: orb_def)

lemma length_orb [simp]: "length (orb sigma s k) = k"
  by (simp add: orb_def)

lemma nth_orb: "j < k \<Longrightarrow> orb sigma s k ! j = (ap sigma ^^ j) s"
  by (simp add: orb_def)

lemma set_orb: "set (orb sigma s k) = (\<lambda>j. (ap sigma ^^ j) s) ` {0..<k}"
  by (simp add: orb_def)

lemma hd_orb: "0 < k \<Longrightarrow> hd (orb sigma s k) = s"
  by (simp add: orb_def upt_conv_Cons)

lemma orb_avoids:
  assumes bwd: "\<And>x. x \<in> set (keys sigma) \<Longrightarrow> ap sigma x \<in> V0 \<Longrightarrow> x \<in> V0"
    and v: "valid_perm sigma" and st: "start \<in> set (keys sigma)" "start \<notin> V0"
  shows "(ap sigma ^^ j) start \<notin> V0"
proof (induction j)
  case 0
  then show ?case using st by simp
next
  case (Suc j)
  show ?case
  proof
    assume "(ap sigma ^^ Suc j) start \<in> V0"
    then have "ap sigma ((ap sigma ^^ j) start) \<in> V0" by simp
    then have "(ap sigma ^^ j) start \<in> V0"
      by (rule bwd [OF valid_funpow_maps [OF v st(1)]])
    with Suc show False by simp
  qed
qed

lemma orb_closes:
  assumes v: "valid_perm sigma" and st: "start \<in> set (keys sigma)"
    and d: "distinct (orb sigma start k)" and j: "j < k"
    and eq: "(ap sigma ^^ j) start = (ap sigma ^^ k) start"
  shows "(ap sigma ^^ k) start = start"
proof -
  have "(ap sigma ^^ k) start = (ap sigma ^^ (j + (k - j))) start" using j by simp
  also have "\<dots> = (ap sigma ^^ j) ((ap sigma ^^ (k - j)) start)"
    by (simp only: funpow_add comp_apply)
  finally have "(ap sigma ^^ j) start = (ap sigma ^^ j) ((ap sigma ^^ (k - j)) start)"
    using eq by simp
  then have bwd: "start = (ap sigma ^^ (k - j)) start"
    using valid_funpow_inj [OF v, of j] st valid_funpow_maps [OF v st, of "k - j"]
    by (simp add: inj_on_def)
  have "j = 0"
  proof (rule ccontr)
    assume "j \<noteq> 0"
    then have lt: "k - j < k" "0 < k" "k - j \<noteq> 0" using j by simp_all
    have "orb sigma start k ! (k - j) = orb sigma start k ! 0"
      using bwd lt by (simp add: nth_orb)
    with d lt show False by (simp add: nth_eq_iff_index_eq)
  qed
  with bwd show ?thesis by simp
qed

lemma cycle_walk_spec:
  "valid_perm sigma \<Longrightarrow> \<forall>x \<in> set (keys sigma). ap sigma x \<in> V0 \<longrightarrow> x \<in> V0 \<Longrightarrow>
   start \<in> set (keys sigma) \<Longrightarrow> start \<notin> V0 \<Longrightarrow>
   visited = V0 \<union> set cycle \<Longrightarrow> cycle = orb sigma start k \<Longrightarrow> distinct cycle \<Longrightarrow>
   current = (ap sigma ^^ k) start \<Longrightarrow>
   \<exists>k'. 0 < k' \<and>
        cycle_walk sigma visited cycle current
          = Inr (V0 \<union> set (orb sigma start k'), orb sigma start k') \<and>
        distinct (orb sigma start k') \<and> (ap sigma ^^ k') start = start"
proof (induction sigma visited cycle current arbitrary: k rule: cycle_walk.induct)
  case (1 sigma visited cycle current)
  note v = \<open>valid_perm sigma\<close>
  note st = \<open>start \<in> set (keys sigma)\<close> \<open>start \<notin> V0\<close>
  have bwd: "x \<in> V0" if "x \<in> set (keys sigma)" "ap sigma x \<in> V0" for x
    using "1.prems"(2) that by blast
  have avoid: "(ap sigma ^^ j) start \<notin> V0" for j
    using bwd v st by (rule orb_avoids)
  have curK: "current \<in> set (keys sigma)"
    using valid_funpow_maps [OF v st(1)] "1.prems"(8) by simp
  show ?case
  proof (cases "current \<in> visited")
    case True
    then have res: "cycle_walk sigma visited cycle current = Inr (visited, cycle)"
      by (subst cycle_walk.simps) simp
    from True avoid [of k] "1.prems"(5,8) have "current \<in> set cycle" by simp
    then obtain j where j: "j < k" "(ap sigma ^^ j) start = (ap sigma ^^ k) start"
      using "1.prems"(6,8) by (auto simp: set_orb)
    have "(ap sigma ^^ k) start = start"
      using v st(1) "1.prems"(7) j unfolding "1.prems"(6) by (rule orb_closes)
    moreover have "0 < k" using j(1) by simp
    ultimately show ?thesis
      using res "1.prems"(5,6,7) by (intro exI [of _ k]) simp
  next
    case False
    have g: "getitem sigma current = Inr (ap sigma current)" using curK by (rule getitem_ap)
    have "\<exists>k'. 0 < k' \<and>
              cycle_walk sigma (insert current visited) (cycle @ [current]) (ap sigma current)
                = Inr (V0 \<union> set (orb sigma start k'), orb sigma start k') \<and>
              distinct (orb sigma start k') \<and> (ap sigma ^^ k') start = start"
    proof (rule "1.IH" [OF False g v "1.prems"(2) st, of "Suc k"])
      show "insert current visited = V0 \<union> set (cycle @ [current])"
        using "1.prems"(5) by simp
      show "cycle @ [current] = orb sigma start (Suc k)"
        using "1.prems"(6,8) by (simp add: orb_Suc)
      show "distinct (cycle @ [current])"
        using False "1.prems"(5,7) by simp
      show "ap sigma current = (ap sigma ^^ Suc k) start"
        using "1.prems"(8) by simp
    qed
    moreover have "cycle_walk sigma visited cycle current
        = cycle_walk sigma (insert current visited) (cycle @ [current]) (ap sigma current)"
      using False g by (subst cycle_walk.simps) simp
    ultimately show ?thesis by simp
  qed
qed

lemma orb_step:
  assumes "(ap sigma ^^ k) s = s" and "j < k"
  shows "ap sigma (orb sigma s k ! j) = orb sigma s k ! (Suc j mod k)"
proof (cases "Suc j < k")
  case True
  then show ?thesis using assms(2) by (simp add: nth_orb)
next
  case False
  with assms(2) have k: "k = Suc j" by simp
  have "ap sigma (orb sigma s k ! j) = (ap sigma ^^ Suc j) s" using assms(2) by (simp add: nth_orb)
  also have "\<dots> = s" using assms(1) k by simp
  also have "s = orb sigma s k ! 0" using assms(2) by (simp add: nth_orb)
  finally show ?thesis by (simp add: k)
qed

lemma orb_subset:
  "valid_perm sigma \<Longrightarrow> s \<in> set (keys sigma) \<Longrightarrow> set (orb sigma s k) \<subseteq> set (keys sigma)"
  using valid_funpow_maps by (auto simp: set_orb)

lemma orb_bwd:
  assumes v: "valid_perm sigma" and s: "s \<in> set (keys sigma)" and k: "0 < k"
    and cl: "(ap sigma ^^ k) s = s" and x: "x \<in> set (keys sigma)"
    and fx: "ap sigma x \<in> set (orb sigma s k)"
  shows "x \<in> set (orb sigma s k)"
proof -
  from fx obtain j where j: "j < k" "ap sigma x = (ap sigma ^^ j) s" by (auto simp: set_orb)
  define j' where "j' = (if j = 0 then k - 1 else j - 1)"
  have j'k: "j' < k" using j(1) k by (auto simp: j'_def)
  have "ap sigma ((ap sigma ^^ j') s) = (ap sigma ^^ Suc j') s" by simp
  also have "\<dots> = ap sigma x"
  proof (cases "j = 0")
    case True
    then have "Suc j' = k" using k by (simp add: j'_def)
    then show ?thesis using cl j(2) True by simp
  next
    case False
    then have "Suc j' = j" by (simp add: j'_def)
    then show ?thesis using j(2) by simp
  qed
  finally have "(ap sigma ^^ j') s = x"
    using valid_perm_inj [OF v] x valid_funpow_maps [OF v s, of j'] by (simp add: inj_on_def)
  then show ?thesis using j'k by (auto simp: set_orb)
qed

lemma orb_moves:
  assumes d: "distinct (orb sigma s k)" and k: "2 \<le> k" and cl: "(ap sigma ^^ k) s = s"
    and x: "x \<in> set (orb sigma s k)"
  shows "ap sigma x \<noteq> x"
proof -
  from x obtain j where j: "j < k" "x = orb sigma s k ! j"
    by (metis in_set_conv_nth length_orb)
  have ne: "Suc j mod k \<noteq> j"
  proof (cases "Suc j < k")
    case True
    then show ?thesis by simp
  next
    case False
    with j(1) have "k = Suc j" by simp
    then show ?thesis using k by simp
  qed
  have "Suc j mod k < k" using j(1) by simp
  then have "orb sigma s k ! (Suc j mod k) \<noteq> orb sigma s k ! j"
    using d j(1) ne by (simp add: nth_eq_iff_index_eq)
  then show ?thesis using orb_step [OF cl j(1)] j(2) by simp
qed

lemma to_cycles_loop_spec:
  assumes v: "valid_perm sigma"
  shows "sorted rest \<Longrightarrow> distinct rest \<Longrightarrow> set rest \<subseteq> set (keys sigma) \<Longrightarrow>
         V \<subseteq> set (keys sigma) \<Longrightarrow>
         \<forall>x \<in> set (keys sigma). ap sigma x \<in> V \<longrightarrow> x \<in> V \<Longrightarrow>
         set (keys sigma) - set rest \<subseteq> V \<Longrightarrow>
         cycles_ok sigma cs \<Longrightarrow> set (concat cs) = {i \<in> V. ap sigma i \<noteq> i} \<Longrightarrow>
         \<forall>c \<in> set cs. \<forall>r \<in> set rest. hd c < r \<Longrightarrow>
         \<exists>cs'. to_cycles_loop sigma rest V cs = Inr cs' \<and> cycles_ok sigma cs' \<and>
               set (concat cs') = {i \<in> set (keys sigma). ap sigma i \<noteq> i}"
proof (induction rest arbitrary: V cs)
  case Nil
  then have "V = set (keys sigma)" by auto
  with Nil show ?case by simp
next
  case (Cons start rest)
  note sorted = \<open>sorted (start # rest)\<close> and dist = \<open>distinct (start # rest)\<close>
  have sr: "sorted rest" "distinct rest" "set rest \<subseteq> set (keys sigma)"
    using Cons.prems(1,2,3) by simp_all
  have stK: "start \<in> set (keys sigma)" using Cons.prems(3) by simp
  have lt: "start < r" if "r \<in> set rest" for r
    using that sorted dist by (auto simp: less_le)
  show ?case
  proof (cases "start \<in> V")
    case True
    have "\<exists>cs'. to_cycles_loop sigma rest V cs = Inr cs' \<and> cycles_ok sigma cs' \<and>
               set (concat cs') = {i \<in> set (keys sigma). ap sigma i \<noteq> i}"
    proof (rule Cons.IH [OF sr Cons.prems(4,5) _ Cons.prems(7,8)])
      show "set (keys sigma) - set rest \<subseteq> V" using Cons.prems(6) True by auto
      show "\<forall>c \<in> set cs. \<forall>r \<in> set rest. hd c < r" using Cons.prems(9) by simp
    qed
    then show ?thesis using True by simp
  next
    case False
    from cycle_walk_spec [OF v Cons.prems(5) stK False, of V "[]" 0 start]
    obtain k where k: "0 < k"
        "cycle_walk sigma V [] start = Inr (V \<union> set (orb sigma start k), orb sigma start k)"
        "distinct (orb sigma start k)" "(ap sigma ^^ k) start = start"
      by (auto simp: orb_def)
    let ?c = "orb sigma start k" and ?V = "V \<union> set (orb sigma start k)"
    have bwd: "x \<in> V" if "x \<in> set (keys sigma)" "ap sigma x \<in> V" for x
      using Cons.prems(5) that by blast
    have cK: "set ?c \<subseteq> set (keys sigma)" using v stK by (rule orb_subset)
    have cV: "set ?c \<inter> V = {}"
      using orb_avoids [OF bwd v stK False] by (auto simp: set_orb)
    have st_in: "start \<in> set ?c" using k(1) by (force simp: set_orb)
    have VK: "?V \<subseteq> set (keys sigma)" using Cons.prems(4) cK by simp
    have Vbwd: "\<forall>x \<in> set (keys sigma). ap sigma x \<in> ?V \<longrightarrow> x \<in> ?V"
      using bwd orb_bwd [OF v stK k(1) k(4)] by blast
    have Vrest: "set (keys sigma) - set rest \<subseteq> ?V" using Cons.prems(6) st_in by auto
    have ge: "start \<le> x" if "x \<in> set ?c" for x
    proof -
      from that cK cV have "x \<in> set (keys sigma)" "x \<notin> V" by auto
      with Cons.prems(6) have "x \<in> set (start # rest)" by auto
      with sorted show ?thesis by auto
    qed
    show ?thesis
    proof (cases "1 < k")
      case True
      let ?cs = "cs @ [?c]"
      have step: "to_cycles_loop sigma (start # rest) V cs = to_cycles_loop sigma rest ?V ?cs"
        using False k(2) True by simp
      have old: "cycles_ok sigma cs" by (rule Cons.prems(7))
      have csV: "set (concat cs) \<subseteq> V" using Cons.prems(8) by auto
      have ok: "cycles_ok sigma ?cs"
        unfolding cycles_ok_def
      proof (intro conjI)
        show "\<forall>c \<in> set ?cs. 2 \<le> length c \<and>
                    (\<forall>j < length c. ap sigma (c ! j) = c ! (Suc j mod length c)) \<and>
                    (\<forall>x \<in> set c. hd c \<le> x)"
        proof
          fix c assume "c \<in> set ?cs"
          then consider "c \<in> set cs" | "c = ?c" by auto
          then show "2 \<le> length c \<and> (\<forall>j < length c. ap sigma (c ! j) = c ! (Suc j mod length c)) \<and>
                     (\<forall>x \<in> set c. hd c \<le> x)"
          proof cases
            case 1
            then show ?thesis using old by (simp add: cycles_ok_def)
          next
            case 2
            have "\<forall>j < k. ap sigma (?c ! j) = ?c ! (Suc j mod k)" using orb_step [OF k(4)] by blast
            moreover have "\<forall>x \<in> set ?c. hd ?c \<le> x" using ge by (simp add: hd_orb [OF k(1)])
            ultimately show ?thesis using True 2 by simp
          qed
        qed
        show "distinct (concat ?cs)"
          using old csV cV k(3) by (auto simp: cycles_ok_def)
        have "\<forall>c \<in> set cs. hd c < start" using Cons.prems(9) by simp
        then show "sorted_wrt (<) (map hd ?cs)"
          using old by (simp add: cycles_ok_def sorted_wrt_append hd_orb [OF k(1)])
      qed
      have mv: "ap sigma x \<noteq> x" if "x \<in> set ?c" for x
        using k(3) _ k(4) that by (rule orb_moves) (use True in simp)
      have cover: "set (concat ?cs) = {i \<in> ?V. ap sigma i \<noteq> i}"
        using Cons.prems(8) mv by auto
      have heads: "\<forall>c \<in> set ?cs. \<forall>r \<in> set rest. hd c < r"
        using Cons.prems(9) lt by (auto simp: hd_orb [OF k(1)])
      show ?thesis
        unfolding step by (rule Cons.IH [OF sr VK Vbwd Vrest ok cover heads])
    next
      case False
      with k(1) have k1: "k = 1" by simp
      have step: "to_cycles_loop sigma (start # rest) V cs = to_cycles_loop sigma rest ?V cs"
        using \<open>start \<notin> V\<close> k(2) k1 by simp
      have c1: "?c = [start]" by (simp add: k1 orb_def)
      have fp: "ap sigma start = start" using k(4) k1 by simp
      have cover: "set (concat cs) = {i \<in> ?V. ap sigma i \<noteq> i}"
        using Cons.prems(8) fp by (auto simp: c1)
      have heads: "\<forall>c \<in> set cs. \<forall>r \<in> set rest. hd c < r" using Cons.prems(9) by simp
      show ?thesis
        unfolding step by (rule Cons.IH [OF sr VK Vbwd Vrest Cons.prems(7) cover heads])
    qed
  qed
qed

lemma to_cycles_ok:
  assumes v: "valid_perm sigma"
  shows "\<exists>cs. to_cycles sigma = Inr cs \<and> cycles_ok sigma cs \<and>
              set (concat cs) = {i \<in> set (keys sigma). ap sigma i \<noteq> i}"
  unfolding to_cycles_def
proof (rule to_cycles_loop_spec [OF v])
  show "sorted (sort (keys sigma))" by simp
  show "distinct (sort (keys sigma))" using v by (simp add: valid_perm_def wf_dict_def)
  show "set (sort (keys sigma)) \<subseteq> set (keys sigma)" by simp
  show "set (keys sigma) - set (sort (keys sigma)) \<subseteq> {}" by simp
  show "cycles_ok sigma []" by (simp add: cycles_ok_def)
qed simp_all

lemma to_cycles_identity: "to_cycles (identity n) = Inr []"
proof -
  have v: "valid_perm (identity n)" using perm_on_identity by (rule perm_on_valid)
  from to_cycles_ok [OF v] obtain cs where cs: "to_cycles (identity n) = Inr cs"
      "cycles_ok (identity n) cs" "set (concat cs) = {i \<in> set (keys (identity n)). ap (identity n) i \<noteq> i}"
    by blast
  have "cs = []"
  proof (cases cs)
    case Nil
    then show ?thesis .
  next
    case (Cons c cs')
    with cs(2) have "2 \<le> length c" by (simp add: cycles_ok_def)
    then obtain x where "x \<in> set c" by (cases c) auto
    with Cons have "x \<in> set (concat cs)" by simp
    then have "x \<in> {i \<in> set (keys (identity n)). ap (identity n) i \<noteq> i}"
      by (simp only: cs(3))
    then have "ap (identity n) x \<noteq> x" by blast
    then show ?thesis by simp
  qed
  with cs(1) show ?thesis by simp
qed

text \<open>
  C9: for a valid permutation \<open>sigma\<close> (on \<open>{1, ..., n}\<close> or on any other key set),
  \<open>to_cycles sigma\<close> returns cycles \<open>cs\<close> such that every cycle has at least two
  points, no point occurs twice in a cycle or in two cycles, \<open>sigma\<close> maps each point of
  a cycle to the next one and the last to the first, the points of the cycles are
  exactly the keys that \<open>sigma\<close> moves, every cycle starts with its smallest point and
  the cycles come in ascending order of their smallest points. For the identity the list
  of cycles is empty and \<open>cycle_notation_str\<close> is "e", for every \<open>n\<close>.
\<close>

theorem to_cycles_spec:
  assumes v: "valid_perm sigma"
  shows "(\<exists>cs. to_cycles sigma = Inr cs
            \<and> (\<forall>c \<in> set cs. 2 \<le> length c \<and> distinct c \<and>
                   (\<forall>j < length c. getitem sigma (c ! j) = Inr (c ! (Suc j mod length c))) \<and>
                   hd c = Min (set c))
            \<and> distinct (concat cs)
            \<and> set (concat cs) = {i \<in> set (keys sigma). getitem sigma i \<noteq> Inr i}
            \<and> sorted_wrt (<) (map (\<lambda>c. Min (set c)) cs))
       \<and> to_cycles (identity n) = Inr []
       \<and> cycle_notation_str (identity n) = Inr ''e''"
proof (intro conjI)
  from to_cycles_ok [OF v] obtain cs where cs: "to_cycles sigma = Inr cs"
      "cycles_ok sigma cs" "set (concat cs) = {i \<in> set (keys sigma). ap sigma i \<noteq> i}"
    by blast
  have dc: "distinct (concat cs)" using cs(2) by (simp add: cycles_ok_def)
  have inK: "x \<in> set (keys sigma)" if "c \<in> set cs" "x \<in> set c" for c x
  proof -
    from that have "x \<in> set (concat cs)" by auto
    with cs(3) show ?thesis by simp
  qed
  have hdmin: "hd c = Min (set c)" if c: "c \<in> set cs" for c
  proof -
    from c cs(2) have l: "2 \<le> length c" and le: "\<forall>x \<in> set c. hd c \<le> x"
      by (simp_all add: cycles_ok_def)
    from l have "c \<noteq> []" by auto
    then have "hd c \<in> set c" by simp
    with le show ?thesis by (intro Min_eqI [symmetric]) simp_all
  qed
  have each: "\<forall>c \<in> set cs. 2 \<le> length c \<and> distinct c \<and>
                   (\<forall>j < length c. getitem sigma (c ! j) = Inr (c ! (Suc j mod length c))) \<and>
                   hd c = Min (set c)"
  proof (intro ballI conjI allI impI)
    fix c assume c: "c \<in> set cs"
    show "2 \<le> length c" using c cs(2) by (simp add: cycles_ok_def)
    show "distinct c" using c dc by (auto simp: distinct_concat_iff)
    show "hd c = Min (set c)" using c by (rule hdmin)
    fix j assume j: "j < length c"
    then have "c ! j \<in> set (keys sigma)" using c by (intro inK [of c]) simp_all
    then have "getitem sigma (c ! j) = Inr (ap sigma (c ! j))" by (rule getitem_ap)
    moreover have "ap sigma (c ! j) = c ! (Suc j mod length c)"
      using c j cs(2) by (simp add: cycles_ok_def)
    ultimately show "getitem sigma (c ! j) = Inr (c ! (Suc j mod length c))" by simp
  qed
  have cover: "set (concat cs) = {i \<in> set (keys sigma). getitem sigma i \<noteq> Inr i}"
    unfolding cs(3) using getitem_ap [of _ sigma] by auto
  have mh: "map (\<lambda>c. Min (set c)) cs = map hd cs"
    by (rule map_cong [OF refl]) (simp add: hdmin)
  have "sorted_wrt (<) (map hd cs)" using cs(2) by (simp add: cycles_ok_def)
  then have srt: "sorted_wrt (<) (map (\<lambda>c. Min (set c)) cs)"
    by (simp only: mh)
  from cs(1) each dc cover srt
  show "\<exists>cs. to_cycles sigma = Inr cs
            \<and> (\<forall>c \<in> set cs. 2 \<le> length c \<and> distinct c \<and>
                   (\<forall>j < length c. getitem sigma (c ! j) = Inr (c ! (Suc j mod length c))) \<and>
                   hd c = Min (set c))
            \<and> distinct (concat cs)
            \<and> set (concat cs) = {i \<in> set (keys sigma). getitem sigma i \<noteq> Inr i}
            \<and> sorted_wrt (<) (map (\<lambda>c. Min (set c)) cs)"
    by blast
next
  show "to_cycles (identity n) = Inr []" by (rule to_cycles_identity)
  show "cycle_notation_str (identity n) = Inr ''e''"
    by (simp add: cycle_notation_str_def to_cycles_identity)
qed

lemma valid_perm_5_ex: "valid_perm [(1, 3), (2, 4), (3, 1), (4, 5), (5, 2), (6, 6)]"
  by (auto simp: valid_perm_def wf_dict_def keys_def values_of_def)

lemma to_cycles_5_ex:
  "to_cycles [(1, 3), (2, 4), (3, 1), (4, 5), (5, 2), (6, 6)] = Inr [[1, 3], [2, 4, 5]]"
  by code_simp

theorem to_cycles_spec_witness:
  "valid_perm [(1, 3), (2, 4), (3, 1), (4, 5), (5, 2), (6, 6)]
   \<and> to_cycles [(1, 3), (2, 4), (3, 1), (4, 5), (5, 2), (6, 6)] = Inr [[1, 3], [2, 4, 5]]
   \<and> set (concat [[1, 3], [2, 4, 5]])
       = {i \<in> set (keys [(1, 3), (2, 4), (3, 1), (4, 5), (5, 2), (6, 6)]).
            getitem [(1, 3), (2, 4), (3, 1), (4, 5), (5, 2), (6, 6)] i \<noteq> Inr i}
   \<and> cycle_notation_str (identity 3) = Inr ''e''"
proof -
  from to_cycles_spec [OF valid_perm_5_ex, of 3] obtain cs where
      "to_cycles [(1, 3), (2, 4), (3, 1), (4, 5), (5, 2), (6, 6)] = Inr cs"
      "set (concat cs) = {i \<in> set (keys [(1, 3), (2, 4), (3, 1), (4, 5), (5, 2), (6, 6)]).
            getitem [(1, 3), (2, 4), (3, 1), (4, 5), (5, 2), (6, 6)] i \<noteq> Inr i}"
      and e: "cycle_notation_str (identity 3) = Inr ''e''"
    by blast
  then show ?thesis using valid_perm_5_ex by (simp add: to_cycles_5_ex)
qed

section \<open>The group of the members of generate\_Sn\<close>

lemma Sym_generate: "set (generate_Sn n) = Sym n"
  by (auto simp: Sym_def generate_Sn_iff)

lemma Sym_perm_on: "s \<in> Sym n \<Longrightarrow> perm_on n s"
  by (simp add: Sym_def)

lemma Sym_keys: "s \<in> Sym n \<Longrightarrow> keys s = [1..n]"
  by (simp add: Sym_def)

lemma compose_mul:
  assumes "perm_on n s" and "perm_on n t"
  shows "compose s t = Inr (mul s t)" and "perm_on n (mul s t)"
  using compose_perm_on [OF assms] by (simp_all add: mul_def)

lemma keys_mul [simp]: "keys (mul s t) = keys t"
  by (simp add: mul_def)

lemma ap_mul: "perm_on n t \<Longrightarrow> i \<in> {1..n} \<Longrightarrow> ap (mul s t) i = ap s (ap t i)"
  using perm_on_keys [of n t] by (simp add: mul_def ap_tab)

lemma mul_Sym: "s \<in> Sym n \<Longrightarrow> t \<in> Sym n \<Longrightarrow> mul s t \<in> Sym n"
  using compose_mul(2) [of n s t] by (simp add: Sym_def)

lemma identity_Sym: "identity n \<in> Sym n"
  by (simp add: Sym_def perm_on_identity)

lemma canon_Sym: "perm_on n d \<Longrightarrow> canon n d \<in> Sym n"
  unfolding canon_def Sym_def using perm_on_image [of n d] by (simp add: perm_on_tab)

lemma ap_canon: "i \<in> {1..n} \<Longrightarrow> ap (canon n d) i = ap d i"
  by (simp add: canon_def ap_tab)

lemma Sym_canon: "s \<in> Sym n \<Longrightarrow> canon n s = s"
proof -
  assume s: "s \<in> Sym n"
  have "s = map (\<lambda>k. (k, ap s k)) (keys s)"
    by (rule dict_as_map [OF perm_on_wf [OF Sym_perm_on [OF s]]])
  then show ?thesis unfolding canon_def Sym_keys [OF s] by (rule sym)
qed

lemma Sym_ext:
  assumes s: "s \<in> Sym n" and t: "t \<in> Sym n" and eq: "\<And>i. i \<in> {1..n} \<Longrightarrow> ap s i = ap t i"
  shows "s = t"
proof -
  have "canon n s = canon n t" unfolding canon_def by (rule map_cong [OF refl]) (simp add: eq)
  then show ?thesis using s t by (simp add: Sym_canon)
qed

lemma sorted_canon: "sorted (canon n d)"
proof -
  have "sorted_wrt (<) [1..n]" by simp
  then have "sorted_wrt (\<lambda>i j. (i, ap d i) \<le> (j, ap d j)) [1..n]"
    by (rule sorted_wrt_mono_rel [rotated]) (simp add: less_eq_prod_def)
  then show ?thesis by (simp add: canon_def sorted_map)
qed

lemma distinct_canon: "distinct (canon n d)"
  by (simp add: canon_def distinct_map inj_on_def)

lemma perm_key_canon:
  assumes p: "perm_on n d"
  shows "perm_key d = canon n d"
  unfolding perm_key_def
proof (rule sorted_distinct_set_unique)
  show "sorted (sort d)" by simp
  have "distinct (map fst d)" using perm_on_wf [OF p] by (simp add: wf_dict_def keys_def)
  then show "distinct (sort d)" by (simp add: distinct_map)
  show "sorted (canon n d)" by (rule sorted_canon)
  show "distinct (canon n d)" by (rule distinct_canon)
  have "set d = set (map (\<lambda>k. (k, ap d k)) (keys d))"
    using dict_as_map [OF perm_on_wf [OF p]] by simp
  also have "\<dots> = (\<lambda>k. (k, ap d k)) ` {1..n}" by (simp add: perm_on_keys [OF p])
  finally show "set (sort d) = set (canon n d)" by (simp add: canon_def)
qed

lemma perm_key_Sym: "s \<in> Sym n \<Longrightarrow> perm_key s = s"
  using perm_key_canon [OF Sym_perm_on, of s n] Sym_canon [of s n] by simp

lemma perm_key_eq_iff:
  assumes "perm_on n a" and "perm_on n b"
  shows "perm_key a = perm_key b \<longleftrightarrow> dict_eq a b"
proof -
  have "canon n a = canon n b \<longleftrightarrow> (\<forall>i \<in> {1..n}. ap a i = ap b i)"
    by (auto simp: canon_def)
  then show ?thesis
    by (simp add: perm_key_canon [OF assms(1)] perm_key_canon [OF assms(2)] perm_on_dict_eq [OF assms])
qed

text \<open>The group laws of \<open>mul\<close> on \<open>Sym n\<close>.\<close>

lemma mul_assoc:
  assumes "a \<in> Sym n" "b \<in> Sym n" "c \<in> Sym n"
  shows "mul (mul a b) c = mul a (mul b c)"
proof (rule Sym_ext)
  show "mul (mul a b) c \<in> Sym n" "mul a (mul b c) \<in> Sym n" using assms by (simp_all add: mul_Sym)
  fix i assume i: "i \<in> {1..n}"
  note pb = Sym_perm_on [OF assms(2)] and pc = Sym_perm_on [OF assms(3)]
  have ci: "ap c i \<in> {1..n}" using perm_on_maps [OF pc i] .
  have bc: "perm_on n (mul b c)" using assms(2,3) by (intro Sym_perm_on mul_Sym)
  have "ap (mul (mul a b) c) i = ap (mul a b) (ap c i)" by (rule ap_mul [OF pc i])
  also have "\<dots> = ap a (ap b (ap c i))" by (rule ap_mul [OF pb ci])
  also have "\<dots> = ap a (ap (mul b c) i)" by (simp only: ap_mul [OF pc i])
  also have "\<dots> = ap (mul a (mul b c)) i" by (rule ap_mul [OF bc i, symmetric])
  finally show "ap (mul (mul a b) c) i = ap (mul a (mul b c)) i" .
qed

lemma mul_identity:
  assumes "s \<in> Sym n"
  shows "mul s (identity n) = s" and "mul (identity n) s = s"
proof -
  note e = perm_on_identity [of n] and p = Sym_perm_on [OF assms]
  show "mul s (identity n) = s"
  proof (rule Sym_ext)
    show "mul s (identity n) \<in> Sym n" using assms identity_Sym by (rule mul_Sym)
    show "s \<in> Sym n" by (rule assms)
    fix i assume "i \<in> {1..n}"
    then show "ap (mul s (identity n)) i = ap s i" by (simp add: ap_mul [OF e])
  qed
  show "mul (identity n) s = s"
  proof (rule Sym_ext)
    show "mul (identity n) s \<in> Sym n" using identity_Sym assms by (rule mul_Sym)
    show "s \<in> Sym n" by (rule assms)
    fix i assume "i \<in> {1..n}"
    then show "ap (mul (identity n) s) i = ap s i" by (simp add: ap_mul [OF p])
  qed
qed

lemma cinv_Sym: "s \<in> Sym n \<Longrightarrow> cinv n s \<in> Sym n"
  by (simp add: cinv_def canon_Sym inverse_perm_on Sym_perm_on)

lemma mul_cinv:
  assumes s: "s \<in> Sym n"
  shows "mul s (cinv n s) = identity n" and "mul (cinv n s) s = identity n"
proof -
  note p = Sym_perm_on [OF s]
  note v = perm_on_valid [OF p]
  note ci = cinv_Sym [OF s]
  show "mul s (cinv n s) = identity n"
  proof (rule Sym_ext)
    show "mul s (cinv n s) \<in> Sym n" using s ci by (rule mul_Sym)
    show "identity n \<in> Sym n" by (rule identity_Sym)
    fix i assume i: "i \<in> {1..n}"
    have "ap (mul s (cinv n s)) i = ap s (ap (cinv n s) i)"
      by (rule ap_mul [OF Sym_perm_on [OF ci] i])
    also have "\<dots> = ap s (ap (inverse s) i)"
      by (simp only: cinv_def ap_canon [OF i])
    also have "\<dots> = i" using ap_inverse_right [OF v] i perm_on_keys [OF p] by simp
    finally show "ap (mul s (cinv n s)) i = ap (identity n) i" by simp
  qed
  show "mul (cinv n s) s = identity n"
  proof (rule Sym_ext)
    show "mul (cinv n s) s \<in> Sym n" using ci s by (rule mul_Sym)
    show "identity n \<in> Sym n" by (rule identity_Sym)
    fix i assume i: "i \<in> {1..n}"
    then have si: "ap s i \<in> {1..n}" by (rule perm_on_maps [OF p])
    have "ap (mul (cinv n s) s) i = ap (cinv n s) (ap s i)"
      by (rule ap_mul [OF p i])
    also have "\<dots> = ap (inverse s) (ap s i)"
      by (simp only: cinv_def ap_canon [OF si])
    also have "\<dots> = i" using ap_inverse_left [OF v] i perm_on_keys [OF p] by simp
    finally show "ap (mul (cinv n s) s) i = ap (identity n) i" by simp
  qed
qed

lemma mul_left_cancel:
  assumes s: "s \<in> Sym n" and a: "a \<in> Sym n" and b: "b \<in> Sym n" and eq: "mul s a = mul s b"
  shows "a = b"
proof -
  have "mul (cinv n s) (mul s a) = mul (cinv n s) (mul s b)" using eq by simp
  then have "mul (mul (cinv n s) s) a = mul (mul (cinv n s) s) b"
    by (simp only: mul_assoc [OF cinv_Sym [OF s] s a] mul_assoc [OF cinv_Sym [OF s] s b])
  then show ?thesis
    by (simp only: mul_cinv(2) [OF s] mul_identity(2) [OF a] mul_identity(2) [OF b])
qed

section \<open>is\_subgroup and the stabilizer module on permutations\<close>

lemma cycle_notation_str_total: "valid_perm s \<Longrightarrow> \<exists>r. cycle_notation_str s = Inr r"
  using to_cycles_ok [of s] by (auto simp: cycle_notation_str_def)

lemma perm_on_perm_of: "perm_on n d \<longleftrightarrow> perm_of {1..n} d"
  by (simp add: perm_on_def perm_of_def)

lemma compose_perm_of:
  assumes s: "perm_of K s" and t: "perm_of K t"
  shows "compose s t = Inr (mul s t)" and "perm_of K (mul s t)"
proof -
  have k: "set (keys s) = set (keys t)" using s t by (simp add: perm_of_def)
  have v: "valid_perm s" "valid_perm t" using s t by (simp_all add: perm_of_def)
  show "compose s t = Inr (mul s t)"
    unfolding mul_def by (rule compose_valid(1) [OF v k])
  have "valid_perm (mul s t)" unfolding mul_def by (rule compose_valid(2) [OF v k])
  then show "perm_of K (mul s t)" using t by (simp add: perm_of_def)
qed

lemma closure_inner_eq:
  assumes s: "perm_of K s"
  shows "\<forall>t \<in> set ts. perm_of K t \<Longrightarrow>
         closure_inner ks s ts = Inr (\<forall>t \<in> set ts. perm_key (mul s t) \<in> set ks)"
proof (induction ts)
  case Nil
  then show ?case by simp
next
  case (Cons t ts)
  then have t: "perm_of K t"
    and IH: "closure_inner ks s ts = Inr (\<forall>t \<in> set ts. perm_key (mul s t) \<in> set ks)"
    by simp_all
  note c = compose_perm_of [OF s t]
  have v: "valid_perm s" "valid_perm t" "valid_perm (mul s t)"
    using s t c(2) by (simp_all add: perm_of_def)
  obtain r1 r2 r3 where r: "cycle_notation_str s = Inr r1" "cycle_notation_str t = Inr r2"
      "cycle_notation_str (mul s t) = Inr r3"
    using v [THEN cycle_notation_str_total] by blast
  show ?case by (simp add: c(1) r IH)
qed

lemma closure_outer_eq:
  assumes H: "\<forall>t \<in> set H. perm_of K t"
  shows "\<forall>s \<in> set ss. perm_of K s \<Longrightarrow>
         closure_outer ks H ss = Inr (\<forall>s \<in> set ss. \<forall>t \<in> set H. perm_key (mul s t) \<in> set ks)"
proof (induction ss)
  case Nil
  then show ?case by simp
next
  case (Cons s ss)
  then have s: "perm_of K s"
    and IH: "closure_outer ks H ss = Inr (\<forall>s \<in> set ss. \<forall>t \<in> set H. perm_key (mul s t) \<in> set ks)"
    by simp_all
  show ?case by (simp add: closure_inner_eq [OF s H] IH)
qed

lemma inverses_loop_eq:
  "\<forall>s \<in> set ss. valid_perm s \<Longrightarrow>
   inverses_loop ks ss = Inr (\<forall>s \<in> set ss. perm_key (inverse s) \<in> set ks)"
proof (induction ss)
  case Nil
  then show ?case by simp
next
  case (Cons s ss)
  then have IH: "inverses_loop ks ss = Inr (\<forall>s \<in> set ss. perm_key (inverse s) \<in> set ks)"
    by simp
  obtain r where r: "cycle_notation_str s = Inr r"
    using cycle_notation_str_total [of s] Cons.prems by auto
  show ?case by (simp add: Let_def r IH)
qed

lemma is_subgroup_eq:
  assumes H: "\<forall>h \<in> set H. perm_of K h"
  shows "is_subgroup H m =
     Inr (perm_key (identity m) \<in> perm_key ` set H \<and>
          (\<forall>s \<in> set H. \<forall>t \<in> set H. perm_key (mul s t) \<in> perm_key ` set H) \<and>
          (\<forall>s \<in> set H. perm_key (inverse s) \<in> perm_key ` set H))"
proof -
  have v: "\<forall>s \<in> set H. valid_perm s" using H by (simp add: perm_of_def)
  show ?thesis
    by (simp add: is_subgroup_def Let_def closure_outer_eq [OF H H] inverses_loop_eq [OF v])
qed

lemma is_subgroup_Sym:
  assumes H: "set H \<subseteq> Sym n"
  shows "is_subgroup H n =
     Inr (identity n \<in> set H \<and> (\<forall>s \<in> set H. \<forall>t \<in> set H. mul s t \<in> set H) \<and>
          (\<forall>s \<in> set H. cinv n s \<in> set H))"
proof -
  have p: "\<forall>h \<in> set H. perm_on n h" using H Sym_perm_on by blast
  then have p': "\<forall>h \<in> set H. perm_of {1..n} h" by (simp add: perm_on_perm_of)
  have img: "perm_key ` set H = set H"
  proof -
    have "perm_key ` set H = (\<lambda>h. h) ` set H"
      by (rule image_cong [OF refl]) (use H perm_key_Sym in blast)
    then show ?thesis by simp
  qed
  have e: "perm_key (identity n) = identity n" using identity_Sym by (rule perm_key_Sym)
  have m: "perm_key (mul s t) = mul s t" if "s \<in> set H" "t \<in> set H" for s t
    using that H by (intro perm_key_Sym [of _ n] mul_Sym) auto
  have i: "perm_key (inverse s) = cinv n s" if "s \<in> set H" for s
    unfolding cinv_def using that p by (intro perm_key_canon inverse_perm_on) simp
  show ?thesis
    unfolding is_subgroup_eq [OF p'] img e using m i by simp
qed

lemma compute_stabilizer_eq:
  "\<forall>s \<in> set L. x \<in> set (keys s) \<Longrightarrow>
   compute_stabilizer L x = Inr (filter (\<lambda>s. ap s x = x) L)"
proof (induction L)
  case Nil
  then show ?case by simp
next
  case (Cons s L)
  then have "x \<in> set (keys s)" by simp
  then have "getitem s x = Inr (ap s x)" by (rule getitem_ap)
  with Cons show ?case by simp
qed

lemma compute_orbit_eq:
  "\<forall>s \<in> set L. x \<in> set (keys s) \<Longrightarrow>
   compute_orbit L x = Inr ((\<lambda>s. ap s x) ` set L)"
proof (induction L)
  case Nil
  then show ?case by simp
next
  case (Cons s L)
  then have "x \<in> set (keys s)" by simp
  then have "getitem s x = Inr (ap s x)" by (rule getitem_ap)
  with Cons show ?case by simp
qed

lemma left_coset_eq:
  assumes s: "perm_of K sigma"
  shows "\<forall>h \<in> set H. perm_of K h \<Longrightarrow> left_coset sigma H = Inr (map (mul sigma) H)"
proof (induction H)
  case Nil
  then show ?case by simp
next
  case (Cons h H)
  then have "compose sigma h = Inr (mul sigma h)" using compose_perm_of(1) [OF s] by simp
  with Cons show ?case by simp
qed


lemma coset_sort_keys_eq:
  "\<forall>c \<in> set cs. c \<noteq> [] \<Longrightarrow>
   coset_sort_keys K cs = Inr (map (\<lambda>c. if perm_key (hd c) \<in> K then 0 else 1) cs)"
proof (induction cs)
  case Nil
  then show ?case by simp
next
  case (Cons c cs)
  then obtain c0 c' where "c = c0 # c'" by (cases c) auto
  with Cons show ?case by simp
qed


section \<open>Cosets\<close>

lemma coset_subset:
  assumes "subgroup n (set H)" and "s \<in> Sym n"
  shows "set (map (mul s) H) \<subseteq> Sym n"
  using assms mul_Sym by (auto simp: subgroup_def)

lemma coset_self:
  assumes "subgroup n (set H)" and "s \<in> Sym n"
  shows "s \<in> set (map (mul s) H)"
proof -
  have "identity n \<in> set H" using assms(1) by (simp add: subgroup_def)
  then have "mul s (identity n) \<in> set (map (mul s) H)" by simp
  then show ?thesis by (simp only: mul_identity(1) [OF assms(2)])
qed

lemma coset_join:
  assumes sg: "subgroup n (set H)" and s: "s \<in> Sym n" and r: "r \<in> Sym n"
    and x: "x \<in> set (map (mul s) H)" "x \<in> set (map (mul r) H)"
  shows "s \<in> set (map (mul r) H)"
proof -
  from x obtain h1 h2 where h: "h1 \<in> set H" "h2 \<in> set H" "x = mul s h1" "x = mul r h2" by auto
  have HS: "h1 \<in> Sym n" "h2 \<in> Sym n" using sg h(1,2) by (auto simp: subgroup_def)
  have i1: "cinv n h1 \<in> set H" using sg h(1) by (simp add: subgroup_def)
  have i1S: "cinv n h1 \<in> Sym n" using HS(1) by (rule cinv_Sym)
  have k: "mul h2 (cinv n h1) \<in> set H" using sg h(2) i1 by (simp add: subgroup_def)
  have "mul r (mul h2 (cinv n h1)) = mul (mul r h2) (cinv n h1)"
    by (rule mul_assoc [OF r HS(2) i1S, symmetric])
  also have "\<dots> = mul (mul s h1) (cinv n h1)" using h(3,4) by simp
  also have "\<dots> = mul s (mul h1 (cinv n h1))" by (rule mul_assoc [OF s HS(1) i1S])
  also have "\<dots> = s" by (simp only: mul_cinv(1) [OF HS(1)] mul_identity(1) [OF s])
  finally have "s = mul r (mul h2 (cinv n h1))" by (rule sym)
  with k show ?thesis by auto
qed

lemma coset_distinct:
  assumes sg: "subgroup n (set H)" and d: "distinct H" and s: "s \<in> Sym n"
  shows "distinct (map (mul s) H)"
proof -
  have "inj_on (mul s) (set H)"
  proof (rule inj_onI)
    fix a b assume "a \<in> set H" "b \<in> set H" "mul s a = mul s b"
    then show "a = b" using sg mul_left_cancel [OF s, of a b] by (auto simp: subgroup_def)
  qed
  with d show ?thesis by (simp add: distinct_map)
qed

lemma coset_loop_inv:
  assumes sg: "subgroup n (set H)"
  shows "set L \<subseteq> Sym n \<Longrightarrow> covered = (\<Union>c \<in> set cosets. set c) \<Longrightarrow> partition_ok n H cosets \<Longrightarrow>
         \<exists>cs. coset_loop H L covered cosets = Inr cs \<and> partition_ok n H cs \<and>
              covered \<union> set L \<subseteq> (\<Union>c \<in> set cs. set c)"
proof (induction L arbitrary: covered cosets)
  case Nil
  then show ?case by simp
next
  case (Cons s L)
  then have s: "s \<in> Sym n" and L: "set L \<subseteq> Sym n" by simp_all
  have ks: "perm_key s = s" using s by (rule perm_key_Sym)
  show ?case
  proof (cases "s \<in> covered")
    case True
    from Cons.IH [OF L Cons.prems(2,3)] obtain cs where
      "coset_loop H L covered cosets = Inr cs" "partition_ok n H cs"
      "covered \<union> set L \<subseteq> (\<Union>c \<in> set cs. set c)" by blast
    with True show ?thesis by (auto simp: ks)
  next
    case False
    let ?c = "map (mul s) H"
    have HS: "\<forall>h \<in> set H. perm_on n h" using sg Sym_perm_on by (auto simp: subgroup_def)
    have lc: "left_coset s H = Inr ?c"
      using Sym_perm_on [OF s] HS by (intro left_coset_eq [of "{1..n}"]) (simp_all add: perm_on_perm_of)
    have cS: "set ?c \<subseteq> Sym n" using sg s by (rule coset_subset)
    have kc: "map perm_key ?c = ?c"
    proof -
      have "map perm_key ?c = map (\<lambda>x. x) ?c"
        by (rule map_cong [OF refl]) (use cS perm_key_Sym in blast)
      then show ?thesis by simp
    qed
    have self: "s \<in> set ?c" using sg s by (rule coset_self)
    have disj: "set ?c \<inter> set d = {}" if d: "d \<in> set cosets" for d
    proof (rule ccontr)
      assume "set ?c \<inter> set d \<noteq> {}"
      then obtain x where x: "x \<in> set ?c" "x \<in> set d" by auto
      from d Cons.prems(3) obtain r where r: "r \<in> Sym n" "d = map (mul r) H"
        by (auto simp: partition_ok_def)
      have "s \<in> set d" using x unfolding r(2) by (rule coset_join [OF sg s r(1)])
      with d have "s \<in> (\<Union>c \<in> set cosets. set c)" by auto
      with False Cons.prems(2) show False by simp
    qed
    have new: "?c \<notin> set cosets"
    proof
      assume "?c \<in> set cosets"
      from disj [OF this] self show False by auto
    qed
    have ok: "partition_ok n H (cosets @ [?c])"
      unfolding partition_ok_def
    proof (intro conjI)
      show "\<forall>c \<in> set (cosets @ [?c]). \<exists>s \<in> Sym n. c = map (mul s) H"
        using Cons.prems(3) s by (auto simp: partition_ok_def)
      show "distinct (cosets @ [?c])" using Cons.prems(3) new by (simp add: partition_ok_def)
      show "\<forall>c \<in> set (cosets @ [?c]). \<forall>d \<in> set (cosets @ [?c]). c \<noteq> d \<longrightarrow> set c \<inter> set d = {}"
      proof (intro ballI impI)
        fix c d assume c: "c \<in> set (cosets @ [?c])" and d: "d \<in> set (cosets @ [?c])" and ne: "c \<noteq> d"
        consider "c \<in> set cosets" "d \<in> set cosets" | "c = ?c" "d \<in> set cosets"
          | "c \<in> set cosets" "d = ?c" using c d ne by auto
        then show "set c \<inter> set d = {}"
        proof cases
          case 1
          then show ?thesis using Cons.prems(3) ne by (simp add: partition_ok_def)
        next
          case 2
          then show ?thesis using disj by simp
        next
          case 3
          then show ?thesis using disj [of c] by (simp add: Int_commute)
        qed
      qed
    qed
    have cov: "covered \<union> set (map perm_key ?c) = (\<Union>c \<in> set (cosets @ [?c]). set c)"
      unfolding kc using Cons.prems(2) by auto
    from Cons.IH [OF L cov ok] obtain cs where cs:
      "coset_loop H L (covered \<union> set (map perm_key ?c)) (cosets @ [?c]) = Inr cs"
      "partition_ok n H cs"
      "covered \<union> set (map perm_key ?c) \<union> set L \<subseteq> (\<Union>c \<in> set cs. set c)" by blast
    have "covered \<union> set (s # L) \<subseteq> (\<Union>c \<in> set cs. set c)"
      using cs(3) self unfolding kc by auto
    moreover have "coset_loop H (s # L) covered cosets = Inr cs"
      using False cs(1) by (simp add: ks lc)
    ultimately show ?thesis using cs(2) by blast
  qed
qed

lemma card_Sym: "card (Sym n) = fact (nat n)"
  using distinct_card [OF distinct_generate_Sn, of n] by (simp add: Sym_generate length_generate_Sn)

lemma sum_list_const: "\<forall>x \<in> set xs. f x = (m::nat) \<Longrightarrow> sum_list (map f xs) = length xs * m"
  by (induction xs) simp_all

lemma partition_count:
  assumes sg: "subgroup n (set H)" and d: "distinct H" and ok: "partition_ok n H cs"
    and un: "(\<Union>c \<in> set cs. set c) = Sym n"
  shows "distinct (concat cs)" and "set (concat cs) = Sym n"
    and "sum_list (map length cs) = fact (nat n)" and "length cs * length H = fact (nat n)"
proof -
  have each: "distinct c \<and> length c = length H" if "c \<in> set cs" for c
  proof -
    from that ok obtain s where "s \<in> Sym n" "c = map (mul s) H" by (auto simp: partition_ok_def)
    then show ?thesis using coset_distinct [OF sg d] by simp
  qed
  show dc: "distinct (concat cs)"
  proof (rule distinct_concat)
    show "distinct cs" using ok by (simp add: partition_ok_def)
    show "\<And>ys. ys \<in> set cs \<Longrightarrow> distinct ys" using each by simp
    show "\<And>ys zs. ys \<in> set cs \<Longrightarrow> zs \<in> set cs \<Longrightarrow> ys \<noteq> zs \<Longrightarrow> set ys \<inter> set zs = {}"
      using ok by (simp add: partition_ok_def)
  qed
  show sc: "set (concat cs) = Sym n" using un by simp
  have "sum_list (map length cs) = length (concat cs)" by (simp add: length_concat)
  also have "\<dots> = card (set (concat cs))" by (rule distinct_card [OF dc, symmetric])
  also have "\<dots> = fact (nat n)" by (simp only: sc card_Sym)
  finally show sl: "sum_list (map length cs) = fact (nat n)" .
  have "sum_list (map length cs) = length cs * length H"
    by (rule sum_list_const) (simp add: each)
  with sl show "length cs * length H = fact (nat n)" by simp
qed

lemma zip_keyed: "zip (map f xs) xs = map (\<lambda>x. (f x, x)) xs"
  by (induction xs) simp_all

lemma sorted_by_key:
  fixes f :: "'a \<Rightarrow> nat"
  defines "res \<equiv> \<lambda>xs. map snd (sort_key fst (zip (map f xs) xs))"
  shows "set (res xs) = set xs" and "length (res xs) = length xs"
    and "distinct xs \<Longrightarrow> distinct (res xs)"
    and "\<exists>x \<in> set xs. f x = 0 \<Longrightarrow> f (hd (res xs)) = 0"
proof -
  let ?zs = "map (\<lambda>x. (f x, x)) xs"
  let ?ys = "sort_key fst ?zs"
  have r: "res xs = map snd ?ys" by (simp add: res_def zip_keyed)
  have sy: "set ?ys = set ?zs" by simp
  show "set (res xs) = set xs" unfolding r by (simp add: image_image)
  show "length (res xs) = length xs" unfolding r by simp
  show "distinct (res xs)" if "distinct xs"
  proof -
    have "distinct ?zs" using that by (simp add: distinct_map inj_on_def)
    then have "distinct ?ys" by simp
    moreover have "inj_on snd (set ?ys)" unfolding sy by (auto simp: inj_on_def)
    ultimately show ?thesis unfolding r by (simp add: distinct_map)
  qed
  show "f (hd (res xs)) = 0" if "\<exists>x \<in> set xs. f x = 0"
  proof -
    from that obtain x where x: "x \<in> set xs" "f x = 0" by blast
    then have mem: "(0, x) \<in> set ?ys" by (force simp: image_iff)
    then obtain y ys where ys: "?ys = y # ys" by (cases ?ys) auto
    have "sorted (map fst ?ys)" by (rule sorted_sort_key)
    then have "\<forall>z \<in> set ?ys. fst y \<le> fst z" unfolding ys by auto
    with mem have "fst y = 0" by fastforce
    moreover have "y \<in> set ?zs" using ys sy by (metis list.set_intros(1))
    then have "fst y = f (snd y)" by auto
    moreover have "hd (res xs) = snd y" unfolding r ys by simp
    ultimately show ?thesis by simp
  qed
qed

lemma coset_identity:
  assumes "set H \<subseteq> Sym n"
  shows "map (mul (identity n)) H = H"
proof -
  have "map (mul (identity n)) H = map (\<lambda>h. h) H"
    by (rule map_cong [OF refl]) (use assms mul_identity(2) in blast)
  then show ?thesis by simp
qed

lemma coset_rep_in_H:
  assumes sg: "subgroup n (set H)" and s: "s \<in> Sym n" and x: "x \<in> set (map (mul s) H)" "x \<in> set H"
  shows "s \<in> set H"
proof -
  have HS: "set H \<subseteq> Sym n" using sg by (simp add: subgroup_def)
  have "x \<in> set (map (mul (identity n)) H)" using x(2) by (simp only: coset_identity [OF HS])
  with x(1) have "s \<in> set (map (mul (identity n)) H)"
    by (rule coset_join [OF sg s identity_Sym])
  then show ?thesis by (simp only: coset_identity [OF HS])
qed

lemma coset_of_member:
  assumes sg: "subgroup n (set H)" and s: "s \<in> set H"
  shows "set (map (mul s) H) = set H"
proof
  show "set (map (mul s) H) \<subseteq> set H" using sg s by (auto simp: subgroup_def)
  show "set H \<subseteq> set (map (mul s) H)"
  proof
    fix h assume h: "h \<in> set H"
    have S: "s \<in> Sym n" "h \<in> Sym n" using sg s h by (auto simp: subgroup_def)
    have i: "cinv n s \<in> set H" using sg s by (simp add: subgroup_def)
    then have k: "mul (cinv n s) h \<in> set H" using sg h by (simp add: subgroup_def)
    have "mul s (mul (cinv n s) h) = mul (mul s (cinv n s)) h"
      by (rule mul_assoc [OF S(1) cinv_Sym [OF S(1)] S(2), symmetric])
    also have "\<dots> = h" by (simp only: mul_cinv(1) [OF S(1)] mul_identity(2) [OF S(2)])
    finally show "h \<in> set (map (mul s) H)" using k by force
  qed
qed

lemma subgroup_from_axioms:
  assumes H: "set H \<subseteq> set (generate_Sn n)" and e: "identity n \<in> set H"
    and cl: "\<forall>s \<in> set H. \<forall>t \<in> set H. \<exists>c \<in> set H. compose s t = Inr c"
    and iv: "\<forall>s \<in> set H. \<exists>h \<in> set H. dict_eq h (inverse s)"
  shows "subgroup n (set H)"
  unfolding subgroup_def
proof (intro conjI ballI)
  show HS: "set H \<subseteq> Sym n" using H by (simp add: Sym_generate)
  show "identity n \<in> set H" by (rule e)
  show "mul s t \<in> set H" if "s \<in> set H" "t \<in> set H" for s t
  proof -
    from that cl obtain c where c: "c \<in> set H" "compose s t = Inr c" by blast
    have "compose s t = Inr (mul s t)"
      using that HS by (intro compose_mul(1) [of n] Sym_perm_on) auto
    with c show ?thesis by simp
  qed
  show "cinv n s \<in> set H" if s: "s \<in> set H" for s
  proof -
    from s iv obtain h where h: "h \<in> set H" "dict_eq h (inverse s)" by blast
    have sS: "s \<in> Sym n" and hS: "h \<in> Sym n" using s h(1) HS by auto
    have pi: "perm_on n (inverse s)" using Sym_perm_on [OF sS] by (rule inverse_perm_on)
    have "h = cinv n s"
    proof (rule Sym_ext [OF hS cinv_Sym [OF sS]])
      fix i assume i: "i \<in> {1..n}"
      have "ap h i = ap (inverse s) i"
        using h(2) i by (simp add: perm_on_dict_eq [OF Sym_perm_on [OF hS] pi])
      then show "ap h i = ap (cinv n s) i" by (simp only: cinv_def ap_canon [OF i])
    qed
    with h(1) show ?thesis by simp
  qed
qed

lemma perm_key_image_Sym: "set H \<subseteq> Sym n \<Longrightarrow> perm_key ` set H = set H"
proof -
  assume H: "set H \<subseteq> Sym n"
  have "perm_key ` set H = (\<lambda>h. h) ` set H"
    by (rule image_cong [OF refl]) (use H perm_key_Sym in blast)
  then show ?thesis by simp
qed

lemma coset_decomposition_Sym:
  assumes sg: "subgroup n (set H)" and d: "distinct H" and ne: "H \<noteq> []"
  shows "\<exists>cs. coset_decomposition (generate_Sn n) H = Inr cs \<and> partition_ok n H cs \<and>
              (\<Union>c \<in> set cs. set c) = Sym n \<and> cs \<noteq> [] \<and> set (hd cs) = set H"
proof -
  have HS: "set H \<subseteq> Sym n" using sg by (simp add: subgroup_def)
  have e: "identity n \<in> set H" using sg by (simp add: subgroup_def)
  have h0: "hd H \<in> set H" using ne by simp
  let ?key = "\<lambda>c. if perm_key (hd c) \<in> set (map perm_key H) then 0 else (1::nat)"
  have "partition_ok n H []" by (simp add: partition_ok_def)
  from coset_loop_inv [OF sg _ _ this, of "generate_Sn n" "{}"]
  obtain cs0 where cs0: "coset_loop H (generate_Sn n) {} [] = Inr cs0" "partition_ok n H cs0"
      "Sym n \<subseteq> (\<Union>c \<in> set cs0. set c)"
    by (auto simp: Sym_generate)
  have rep: "\<exists>s \<in> Sym n. c = map (mul s) H" if "c \<in> set cs0" for c
    using cs0(2) that by (simp add: partition_ok_def)
  have sub: "set c \<subseteq> Sym n" if "c \<in> set cs0" for c
  proof -
    from rep [OF that] obtain s where s: "s \<in> Sym n" "c = map (mul s) H" by blast
    show ?thesis unfolding s(2) using sg s(1) by (rule coset_subset)
  qed
  have un0: "(\<Union>c \<in> set cs0. set c) = Sym n" using cs0(3) sub by auto
  have nonempty: "\<forall>c \<in> set cs0. c \<noteq> []" using rep ne by auto
  have key0: "set c = set H" if c: "c \<in> set cs0" and k: "?key c = 0" for c
  proof -
    from rep [OF c] obtain s where s: "s \<in> Sym n" "c = map (mul s) H" by blast
    have hc: "hd c \<in> set c" using nonempty c by simp
    then have "hd c \<in> Sym n" using sub [OF c] by auto
    then have "perm_key (hd c) = hd c" by (rule perm_key_Sym)
    with k have "hd c \<in> set H"
      by (simp add: perm_key_image_Sym [OF HS] split: if_splits)
    with hc have "s \<in> set H" unfolding s(2) by (rule coset_rep_in_H [OF sg s(1)])
    then show ?thesis unfolding s(2) by (rule coset_of_member [OF sg])
  qed
  have ex0: "\<exists>c \<in> set cs0. ?key c = 0"
  proof -
    have "identity n \<in> (\<Union>c \<in> set cs0. set c)" using un0 identity_Sym by simp
    then obtain c where c: "c \<in> set cs0" "identity n \<in> set c" by auto
    from rep [OF c(1)] obtain s where s: "s \<in> Sym n" "c = map (mul s) H" by blast
    have sH: "s \<in> set H" using c(2) e unfolding s(2) by (rule coset_rep_in_H [OF sg s(1)])
    have "hd c = mul s (hd H)" using ne by (simp add: s(2) hd_map)
    then have "hd c \<in> set H" using sg sH h0 by (simp add: subgroup_def)
    moreover from this HS have "perm_key (hd c) = hd c" by (intro perm_key_Sym [of _ n]) auto
    ultimately have "?key c = 0" by (simp add: perm_key_image_Sym [OF HS])
    with c(1) show ?thesis by blast
  qed
  let ?res = "map snd (sort_key fst (zip (map ?key cs0) cs0))"
  note sk = sorted_by_key [where f = ?key and xs = cs0]
  have res: "coset_decomposition (generate_Sn n) H = Inr ?res"
    by (simp add: coset_decomposition_def Let_def cs0(1) coset_sort_keys_eq [OF nonempty])
  have ok: "partition_ok n H ?res"
    using cs0(2) sk(3) unfolding partition_ok_def sk(1) by blast
  have un: "(\<Union>c \<in> set ?res. set c) = Sym n" unfolding sk(1) by (rule un0)
  have "cs0 \<noteq> []" using ex0 by auto
  then have rne: "?res \<noteq> []" using sk(2) by (metis length_0_conv)
  then have "hd ?res \<in> set cs0" using sk(1) by (metis hd_in_set)
  moreover have "?key (hd ?res) = 0" using ex0 by (rule sk(4))
  ultimately have "set (hd ?res) = set H" by (rule key0)
  with res ok un rne show ?thesis by blast
qed

text \<open>
  C2: let \<open>H\<close> be a non-empty list without duplicates of members of \<open>generate_Sn n\<close>
  that contains \<open>identity n\<close>, is closed under \<open>compose\<close> and contains, for each of
  its members, a dict equal to its \<open>inverse\<close>. Then
  \<open>coset_decomposition (generate_Sn n) H\<close> returns a list \<open>cs\<close> of exactly
  \<open>len(Sn) // len(H)\<close> lists; each of them is the left coset \<open>left_coset s H\<close> of a
  member \<open>s\<close> of \<open>generate_Sn n\<close> and has as many members as \<open>H\<close>; two cosets at
  different positions are disjoint; the union of the cosets is the set of
  \<open>generate_Sn n\<close>; every member of \<open>generate_Sn n\<close> lies in the coset at exactly one
  position, and occurs once there; and the first coset equals \<open>H\<close> as a set.
\<close>

theorem coset_decomposition_partition:
  assumes H: "set H \<subseteq> set (generate_Sn n)" and d: "distinct H" and ne: "H \<noteq> []"
    and e: "identity n \<in> set H"
    and cl: "\<forall>s \<in> set H. \<forall>t \<in> set H. \<exists>c \<in> set H. compose s t = Inr c"
    and iv: "\<forall>s \<in> set H. \<exists>h \<in> set H. dict_eq h (inverse s)"
  shows "\<exists>cs. coset_decomposition (generate_Sn n) H = Inr cs
            \<and> length cs = length (generate_Sn n) div length H
            \<and> (\<forall>c \<in> set cs. \<exists>s \<in> set (generate_Sn n).
                   left_coset s H = Inr c \<and> length c = length H)
            \<and> (\<forall>i < length cs. \<forall>j < length cs. i \<noteq> j \<longrightarrow> set (cs ! i) \<inter> set (cs ! j) = {})
            \<and> (\<Union>c \<in> set cs. set c) = set (generate_Sn n)
            \<and> (\<forall>x \<in> set (generate_Sn n). \<exists>!i. i < length cs \<and> x \<in> set (cs ! i))
            \<and> distinct (concat cs)
            \<and> set (hd cs) = set H"
proof -
  have sg: "subgroup n (set H)" using H e cl iv by (rule subgroup_from_axioms)
  from coset_decomposition_Sym [OF sg d ne] obtain cs where
    cs: "coset_decomposition (generate_Sn n) H = Inr cs" "partition_ok n H cs"
      "(\<Union>c \<in> set cs. set c) = Sym n" "set (hd cs) = set H" by blast
  note cnt = partition_count [OF sg d cs(2,3)]
  have "length (generate_Sn n) div length H = (length cs * length H) div length H"
    by (simp only: cnt(4) length_generate_Sn)
  also have "\<dots> = length cs" using ne by simp
  finally have len: "length cs = length (generate_Sn n) div length H" by (rule sym)
  have disj: "set (cs ! i) \<inter> set (cs ! j) = {}" if "i < length cs" "j < length cs" "i \<noteq> j" for i j
  proof -
    have "distinct cs" using cs(2) by (simp add: partition_ok_def)
    with that have "cs ! i \<noteq> cs ! j" by (simp add: nth_eq_iff_index_eq)
    with that cs(2) show ?thesis by (simp add: partition_ok_def)
  qed
  have uniq: "\<exists>!i. i < length cs \<and> x \<in> set (cs ! i)" if "x \<in> set (generate_Sn n)" for x
  proof -
    from that have "x \<in> (\<Union>c \<in> set cs. set c)" by (simp only: cs(3) Sym_generate)
    then obtain c where "c \<in> set cs" "x \<in> set c" by auto
    then obtain i where i: "i < length cs" "x \<in> set (cs ! i)" by (auto simp: in_set_conv_nth)
    show ?thesis
    proof (rule ex1I [of _ i])
      show "i < length cs \<and> x \<in> set (cs ! i)" using i by simp
      fix j assume j: "j < length cs \<and> x \<in> set (cs ! j)"
      show "j = i"
      proof (rule ccontr)
        assume "j \<noteq> i"
        with disj [of j i] i j show False by auto
      qed
    qed
  qed
  have HS: "\<forall>h \<in> set H. perm_of {1..n} h"
    using H by (auto simp: generate_Sn_iff perm_on_perm_of)
  have cos: "\<forall>c \<in> set cs. \<exists>s \<in> set (generate_Sn n). left_coset s H = Inr c \<and> length c = length H"
  proof
    fix c assume "c \<in> set cs"
    with cs(2) obtain s where s: "s \<in> Sym n" "c = map (mul s) H"
      by (auto simp: partition_ok_def)
    have "perm_of {1..n} s" using Sym_perm_on [OF s(1)] by (simp add: perm_on_perm_of)
    then have "left_coset s H = Inr c" unfolding s(2) using HS by (rule left_coset_eq)
    moreover have "length c = length H" by (simp add: s(2))
    moreover have "s \<in> set (generate_Sn n)" using s(1) by (simp only: Sym_generate)
    ultimately show "\<exists>s \<in> set (generate_Sn n). left_coset s H = Inr c \<and> length c = length H"
      by blast
  qed
  have un: "(\<Union>c \<in> set cs. set c) = set (generate_Sn n)" by (simp only: cs(3) Sym_generate)
  have d1: "\<forall>i < length cs. \<forall>j < length cs. i \<noteq> j \<longrightarrow> set (cs ! i) \<inter> set (cs ! j) = {}"
    using disj by blast
  have u1: "\<forall>x \<in> set (generate_Sn n). \<exists>!i. i < length cs \<and> x \<in> set (cs ! i)"
    using uniq by blast
  show ?thesis
    by (rule exI [of _ cs]) (intro conjI cs(1) len cos d1 un u1 cnt(1) cs(4))
qed

lemma generate_Sn_3:
  "generate_Sn 3 = [[(1, 1), (2, 2), (3, 3)], [(1, 1), (2, 3), (3, 2)], [(1, 2), (2, 1), (3, 3)],
                    [(1, 2), (2, 3), (3, 1)], [(1, 3), (2, 1), (3, 2)], [(1, 3), (2, 2), (3, 1)]]"
  by code_simp

lemma coset_decomposition_3:
  "coset_decomposition (generate_Sn 3) [[(1, 1), (2, 3), (3, 2)], [(1, 1), (2, 2), (3, 3)]]
   = Inr [[[(1, 1), (2, 3), (3, 2)], [(1, 1), (2, 2), (3, 3)]],
          [[(1, 2), (2, 3), (3, 1)], [(1, 2), (2, 1), (3, 3)]],
          [[(1, 3), (2, 2), (3, 1)], [(1, 3), (2, 1), (3, 2)]]]"
  by code_simp

lemma subgroup_3_axioms:
  "set [[(1, 1), (2, 3), (3, 2)], [(1, 1), (2, 2), (3, 3)]] \<subseteq> set (generate_Sn 3)"
  "distinct ([[(1, 1), (2, 3), (3, 2)], [(1, 1), (2, 2), (3, 3)]] :: pdict list)"
  "([[(1, 1), (2, 3), (3, 2)], [(1, 1), (2, 2), (3, 3)]] :: pdict list) \<noteq> []"
  "identity 3 \<in> set [[(1, 1), (2, 3), (3, 2)], [(1, 1), (2, 2), (3, 3)]]"
  "\<forall>s \<in> set [[(1, 1), (2, 3), (3, 2)], [(1, 1), (2, 2), (3, 3)]].
     \<forall>t \<in> set [[(1, 1), (2, 3), (3, 2)], [(1, 1), (2, 2), (3, 3)]].
       \<exists>c \<in> set [[(1, 1), (2, 3), (3, 2)], [(1, 1), (2, 2), (3, 3)]]. compose s t = Inr c"
  "\<forall>s \<in> set [[(1, 1), (2, 3), (3, 2)], [(1, 1), (2, 2), (3, 3)]].
     \<exists>h \<in> set [[(1, 1), (2, 3), (3, 2)], [(1, 1), (2, 2), (3, 3)]]. dict_eq h (inverse s)"
  by (simp add: generate_Sn_3, simp, simp, code_simp, code_simp, code_simp)

lemma left_coset_3:
  "left_coset [(1, 2), (2, 1), (3, 3)] [[(1, 1), (2, 3), (3, 2)], [(1, 1), (2, 2), (3, 3)]]
   = Inr [[(1, 2), (2, 3), (3, 1)], [(1, 2), (2, 1), (3, 3)]]"
  by code_simp

theorem coset_decomposition_partition_witness:
  "coset_decomposition (generate_Sn 3) [[(1, 1), (2, 3), (3, 2)], [(1, 1), (2, 2), (3, 3)]]
     = Inr [[[(1, 1), (2, 3), (3, 2)], [(1, 1), (2, 2), (3, 3)]],
            [[(1, 2), (2, 3), (3, 1)], [(1, 2), (2, 1), (3, 3)]],
            [[(1, 3), (2, 2), (3, 1)], [(1, 3), (2, 1), (3, 2)]]]
   \<and> (3 :: nat) = length (generate_Sn 3) div length ([[(1, 1), (2, 3), (3, 2)], [(1, 1), (2, 2), (3, 3)]] :: pdict list)
   \<and> left_coset [(1, 2), (2, 1), (3, 3)] [[(1, 1), (2, 3), (3, 2)], [(1, 1), (2, 2), (3, 3)]]
       = Inr [[(1, 2), (2, 3), (3, 1)], [(1, 2), (2, 1), (3, 3)]]
   \<and> set ([(1, 1), (2, 3), (3, 2)] :: pdict) \<inter> set [(1, 1), (2, 2), (3, 3)] \<noteq> {}"
proof -
  from coset_decomposition_partition [OF subgroup_3_axioms] obtain cs where
    cs: "coset_decomposition (generate_Sn 3) [[(1, 1), (2, 3), (3, 2)], [(1, 1), (2, 2), (3, 3)]] = Inr cs"
      "length cs = length (generate_Sn 3) div length ([[(1, 1), (2, 3), (3, 2)], [(1, 1), (2, 2), (3, 3)]] :: pdict list)"
    by blast
  from cs(1) have "cs = [[[(1, 1), (2, 3), (3, 2)], [(1, 1), (2, 2), (3, 3)]],
            [[(1, 2), (2, 3), (3, 1)], [(1, 2), (2, 1), (3, 3)]],
            [[(1, 3), (2, 2), (3, 1)], [(1, 3), (2, 1), (3, 2)]]]"
    by (simp add: coset_decomposition_3)
  with cs(2) have b: "(3 :: nat) = length (generate_Sn 3) div
      length ([[(1, 1), (2, 3), (3, 2)], [(1, 1), (2, 2), (3, 3)]] :: pdict list)"
    by simp
  have c: "set ([(1, 1), (2, 3), (3, 2)] :: pdict) \<inter> set [(1, 1), (2, 2), (3, 3)] \<noteq> {}"
    by simp
  show ?thesis by (intro conjI coset_decomposition_3 b left_coset_3 c)
qed

section \<open>verify\_stabilizer\<close>

lemma transp_Sym:
  assumes x: "x \<in> {1..n}" and v: "v \<in> {1..n}"
  shows "transp n x v \<in> Sym n" and "ap (transp n x v) x = v"
proof -
  let ?f = "\<lambda>i. if i = x then v else if i = v then x else i"
  have into: "?f i \<in> {1..n}" if "i \<in> {1..n}" for i using that x v by auto
  have invol: "?f (?f i) = i" for i by auto
  have "?f ` {1..n} = {1..n}"
  proof
    show "?f ` {1..n} \<subseteq> {1..n}" using into by blast
    show "{1..n} \<subseteq> ?f ` {1..n}"
    proof
      fix y assume "y \<in> {1..n}"
      then have "?f y \<in> {1..n}" by (rule into)
      moreover have "y = ?f (?f y)" by (rule invol [symmetric])
      ultimately show "y \<in> ?f ` {1..n}" by (rule rev_image_eqI)
    qed
  qed
  then have "perm_on n (transp n x v)" unfolding transp_def by (intro perm_on_tab) simp_all
  then show "transp n x v \<in> Sym n" by (simp add: Sym_def transp_def)
  show "ap (transp n x v) x = v" unfolding transp_def using x by (simp add: ap_tab)
qed

lemma orbit_full:
  assumes x: "x \<in> {1..n}"
  shows "(\<lambda>s. ap s x) ` Sym n = {1..n}"
proof
  show "(\<lambda>s. ap s x) ` Sym n \<subseteq> {1..n}"
    using perm_on_maps [OF Sym_perm_on x] by blast
  show "{1..n} \<subseteq> (\<lambda>s. ap s x) ` Sym n"
  proof
    fix v assume "v \<in> {1..n}"
    from transp_Sym [OF x this] show "v \<in> (\<lambda>s. ap s x) ` Sym n" by force
  qed
qed

lemma stabilizer_set: "set (stabilizer n x) = {s \<in> Sym n. ap s x = x}"
  by (auto simp: stabilizer_def Sym_generate)

lemma ap_cinv:
  assumes s: "s \<in> Sym n" and i: "i \<in> {1..n}"
  shows "ap (cinv n s) (ap s i) = i"
proof -
  note p = Sym_perm_on [OF s]
  have "ap s i \<in> {1..n}" using p i by (rule perm_on_maps)
  then have "ap (cinv n s) (ap s i) = ap (inverse s) (ap s i)"
    by (simp only: cinv_def ap_canon)
  also have "\<dots> = i" using ap_inverse_left [OF perm_on_valid [OF p]] i perm_on_keys [OF p] by simp
  finally show ?thesis .
qed

lemma stabilizer_subgroup:
  assumes x: "x \<in> {1..n}"
  shows "subgroup n (set (stabilizer n x))"
  unfolding subgroup_def stabilizer_set
proof (intro conjI ballI)
  show "{s \<in> Sym n. ap s x = x} \<subseteq> Sym n" by blast
  show "identity n \<in> {s \<in> Sym n. ap s x = x}" by (simp add: identity_Sym)
  show "mul s t \<in> {s \<in> Sym n. ap s x = x}"
    if "s \<in> {s \<in> Sym n. ap s x = x}" "t \<in> {s \<in> Sym n. ap s x = x}" for s t
  proof -
    from that have s: "s \<in> Sym n" "ap s x = x" and t: "t \<in> Sym n" "ap t x = x" by simp_all
    have "ap (mul s t) x = ap s (ap t x)" by (rule ap_mul [OF Sym_perm_on [OF t(1)] x])
    with s t show ?thesis by (simp add: mul_Sym)
  qed
  show "cinv n s \<in> {s \<in> Sym n. ap s x = x}" if "s \<in> {s \<in> Sym n. ap s x = x}" for s
  proof -
    from that have s: "s \<in> Sym n" "ap s x = x" by simp_all
    from ap_cinv [OF s(1) x] s(2) have "ap (cinv n s) x = x" by simp
    with s(1) show ?thesis by (simp add: cinv_Sym)
  qed
qed

lemma stabilizer_distinct: "distinct (stabilizer n x)"
  by (simp add: stabilizer_def distinct_generate_Sn)

lemma stabilizer_nonempty: "stabilizer n x \<noteq> []"
proof -
  have "identity n \<in> set (stabilizer n x)" by (simp add: stabilizer_set identity_Sym)
  then show ?thesis by auto
qed

lemma stabilizer_cosets_count:
  assumes x: "x \<in> {1..n}" and ok: "partition_ok n (stabilizer n x) cs"
    and un: "(\<Union>c \<in> set cs. set c) = Sym n"
  shows "length cs = nat n"
proof -
  let ?H = "stabilizer n x"
  let ?val = "\<lambda>c. ap (hd c) x"
  note sg = stabilizer_subgroup [OF x]
  have rep: "\<exists>s \<in> Sym n. c = map (mul s) ?H" if "c \<in> set cs" for c
    using ok that by (simp add: partition_ok_def)
  have elem: "ap y x = ap s x" if "s \<in> Sym n" "y \<in> set (map (mul s) ?H)" for s y
  proof -
    from that(2) obtain h where h: "h \<in> set ?H" "y = mul s h" by auto
    then have hS: "h \<in> Sym n" "ap h x = x" by (simp_all add: stabilizer_set)
    have "ap (mul s h) x = ap s (ap h x)" by (rule ap_mul [OF Sym_perm_on [OF hS(1)] x])
    with h(2) hS(2) show ?thesis by simp
  qed
  have val: "?val (map (mul s) ?H) = ap s x" if "s \<in> Sym n" for s
  proof -
    have "hd (map (mul s) ?H) \<in> set (map (mul s) ?H)"
      using stabilizer_nonempty [of n x] by (intro hd_in_set) simp
    then show ?thesis by (rule elem [OF that])
  qed
  have inj: "inj_on ?val (set cs)"
  proof (rule inj_onI)
    fix c d assume c: "c \<in> set cs" and d: "d \<in> set cs" and eq: "?val c = ?val d"
    from rep [OF c] obtain s where s: "s \<in> Sym n" "c = map (mul s) ?H" by blast
    from rep [OF d] obtain r where r: "r \<in> Sym n" "d = map (mul r) ?H" by blast
    from eq have sx: "ap s x = ap r x" by (simp add: s(2) r(2) val [OF s(1)] val [OF r(1)])
    let ?h = "mul (cinv n r) s"
    have hS: "?h \<in> Sym n" using cinv_Sym [OF r(1)] s(1) by (rule mul_Sym)
    have "ap ?h x = ap (cinv n r) (ap s x)" by (rule ap_mul [OF Sym_perm_on [OF s(1)] x])
    also have "\<dots> = x" unfolding sx by (rule ap_cinv [OF r(1) x])
    finally have hH: "?h \<in> set ?H" using hS by (simp add: stabilizer_set)
    have "mul r ?h = mul (mul r (cinv n r)) s"
      by (rule mul_assoc [OF r(1) cinv_Sym [OF r(1)] s(1), symmetric])
    also have "\<dots> = s" by (simp only: mul_cinv(1) [OF r(1)] mul_identity(2) [OF s(1)])
    finally have "s \<in> set d" using hH unfolding r(2) by force
    moreover have "s \<in> set c" unfolding s(2) using sg s(1) by (rule coset_self)
    ultimately have "set c \<inter> set d \<noteq> {}" by blast
    with ok c d show "c = d" unfolding partition_ok_def by blast
  qed
  have img: "?val ` set cs = {1..n}"
  proof
    show "?val ` set cs \<subseteq> {1..n}"
    proof
      fix v assume "v \<in> ?val ` set cs"
      then obtain c where c: "c \<in> set cs" "v = ?val c" by blast
      from rep [OF c(1)] obtain s where s: "s \<in> Sym n" "c = map (mul s) ?H" by blast
      have "v = ap s x" using c(2) by (simp only: s(2) val [OF s(1)])
      then show "v \<in> {1..n}" using perm_on_maps [OF Sym_perm_on [OF s(1)] x] by simp
    qed
    show "{1..n} \<subseteq> ?val ` set cs"
    proof
      fix v assume v: "v \<in> {1..n}"
      note t = transp_Sym [OF x v]
      from t(1) un obtain c where c: "c \<in> set cs" "transp n x v \<in> set c" by blast
      from rep [OF c(1)] obtain s where s: "s \<in> Sym n" "c = map (mul s) ?H" by blast
      have "ap (transp n x v) x = ap s x" using c(2) unfolding s(2) by (rule elem [OF s(1)])
      then have "?val c = v" by (simp only: s(2) val [OF s(1)] t(2))
      with c(1) show "v \<in> ?val ` set cs" by force
    qed
  qed
  have "length cs = card (set cs)"
    using ok by (simp add: partition_ok_def distinct_card)
  also have "\<dots> = card (?val ` set cs)" by (rule card_image [OF inj, symmetric])
  also have "\<dots> = nat n" by (simp add: img)
  finally show ?thesis .
qed

lemma verify_stabilizer_facts:
  assumes n: "1 \<le> n" and x: "x \<in> {1..n}"
  shows "compute_stabilizer (generate_Sn n) x = Inr (stabilizer n x)"
    and "compute_orbit (generate_Sn n) x = Inr {1..n}"
    and "is_subgroup (stabilizer n x) n = Inr True"
    and "length (stabilizer n x) = fact (nat (n - 1))"
    and "\<exists>cs. coset_decomposition (generate_Sn n) (stabilizer n x) = Inr cs \<and>
              length cs = nat n \<and> sum_list (map length cs) = fact (nat n)"
proof -
  let ?H = "stabilizer n x"
  have all: "\<forall>s \<in> set (generate_Sn n). perm_on n s" by (simp add: generate_Sn_iff)
  have allx: "\<forall>s \<in> set (generate_Sn n). x \<in> set (keys s)"
    using all x perm_on_keys by blast
  show "compute_stabilizer (generate_Sn n) x = Inr ?H"
    unfolding stabilizer_def using allx by (rule compute_stabilizer_eq)
  show "compute_orbit (generate_Sn n) x = Inr {1..n}"
    using compute_orbit_eq [OF allx] by (simp only: Sym_generate orbit_full [OF x])
  note sg = stabilizer_subgroup [OF x]
  have HS: "set ?H \<subseteq> Sym n" using sg by (simp add: subgroup_def)
  show "is_subgroup ?H n = Inr True"
    using sg unfolding is_subgroup_Sym [OF HS] subgroup_def by simp
  from coset_decomposition_Sym [OF sg stabilizer_distinct stabilizer_nonempty]
  obtain cs where cs: "coset_decomposition (generate_Sn n) ?H = Inr cs" "partition_ok n ?H cs"
      "(\<Union>c \<in> set cs. set c) = Sym n" by blast
  note cnt = partition_count [OF sg stabilizer_distinct cs(2,3)]
  have len: "length cs = nat n" using x cs(2,3) by (rule stabilizer_cosets_count)
  from n obtain m where m: "nat n = Suc m" "nat (n - 1) = m"
    by (metis Suc_nat_eq_nat_zadd1 add.commute diff_ge_0_iff_ge diff_add_cancel)
  have "Suc m * length ?H = Suc m * fact m" using cnt(4) by (simp add: len m(1))
  then have l: "length ?H = fact m" by (simp only: mult_cancel1) simp
  then show "length ?H = fact (nat (n - 1))" by (simp only: m(2))
  from cs(1) len cnt(3)
  show "\<exists>cs. coset_decomposition (generate_Sn n) ?H = Inr cs \<and>
              length cs = nat n \<and> sum_list (map length cs) = fact (nat n)" by blast
qed

lemma verify_stabilizer_eval:
  assumes n: "1 \<le> n" and x: "x \<in> {1..n}"
  shows "verify_stabilizer n x verbose = Inr True"
proof -
  note f = verify_stabilizer_facts [OF n x]
  from f(5) obtain cs where cs: "coset_decomposition (generate_Sn n) (stabilizer n x) = Inr cs"
      "length cs = nat n" "sum_list (map length cs) = fact (nat n)" by blast
  from n obtain m where m: "nat n = Suc m" "nat (n - 1) = m"
    by (metis Suc_nat_eq_nat_zadd1 add.commute diff_ge_0_iff_ge diff_add_cancel)
  have fac: "factorial (n - 1) = Inr (int (fact m))" using n by (simp add: factorial_def m(2))
  have ls: "length (stabilizer n x) = fact m" using f(4) by (simp only: m(2))
  have lS: "length (generate_Sn n) = Suc m * fact m" by (simp add: length_generate_Sn m(1))
  have pos: "(fact m :: nat) \<noteq> 0" by simp
  have idx: "int (Suc m * fact m) div int (fact m) = n"
  proof -
    have "int (Suc m * fact m) div int (fact m) = int (Suc m)" by simp
    also have "\<dots> = n" using n m(1) by linarith
    finally show ?thesis .
  qed
  have card: "card {1..n} = Suc m" by (simp add: m(1))
  have lc: "int (length cs) = n" using cs(2) n by simp
  have sm: "sum_list (map length cs) = Suc m * fact m" using cs(3) by (simp add: m(1))
  show ?thesis
    using pos idx card lc sm
    by (simp add: verify_stabilizer_def Let_def f(1) f(2) f(3) fac cs(1) ls lS)
qed

text \<open>
  C1: for every \<open>n \<ge> 1\<close> and every \<open>fixed_point\<close> in \<open>{1, ..., n}\<close>,
  \<open>verify_stabilizer n fixed_point verbose\<close> returns \<open>True\<close>: the stabilizer of
  \<open>fixed_point\<close> in \<open>generate_Sn n\<close> passes \<open>is_subgroup\<close>, has \<open>(n - 1)!\<close> elements,
  \<open>|S_n| = |Orb(x)| * |Stab(x)|\<close> holds, \<open>len(Sn) // len(stab)\<close> is \<open>n\<close>, and the coset
  decomposition has exactly \<open>n\<close> cosets whose sizes sum to \<open>n!\<close>.
\<close>

theorem verify_stabilizer_true:
  assumes n: "1 \<le> n" and x: "fixed_point \<in> {1..n}"
  shows "verify_stabilizer n fixed_point verbose = Inr True
       \<and> (\<exists>stab orb cosets.
             compute_stabilizer (generate_Sn n) fixed_point = Inr stab
           \<and> compute_orbit (generate_Sn n) fixed_point = Inr orb
           \<and> is_subgroup stab n = Inr True
           \<and> int (length stab) = fact (nat (n - 1))
           \<and> length (generate_Sn n) = card orb * length stab
           \<and> int (length (generate_Sn n)) div int (length stab) = n
           \<and> coset_decomposition (generate_Sn n) stab = Inr cosets
           \<and> int (length cosets) = n
           \<and> int (sum_list (map length cosets)) = fact (nat n))"
proof
  show "verify_stabilizer n fixed_point verbose = Inr True"
    using n x by (rule verify_stabilizer_eval)
  note f = verify_stabilizer_facts [OF n x]
  from f(5) obtain cs where cs:
      "coset_decomposition (generate_Sn n) (stabilizer n fixed_point) = Inr cs"
      "length cs = nat n" "sum_list (map length cs) = fact (nat n)" by blast
  from n obtain m where m: "nat n = Suc m" "nat (n - 1) = m"
    by (metis Suc_nat_eq_nat_zadd1 add.commute diff_ge_0_iff_ge diff_add_cancel)
  have ls: "length (stabilizer n fixed_point) = fact m" using f(4) by (simp only: m(2))
  have lS: "length (generate_Sn n) = Suc m * fact m" by (simp add: length_generate_Sn m(1))
  have a: "int (length (stabilizer n fixed_point)) = fact (nat (n - 1))"
    by (simp add: ls m(2))
  have b: "length (generate_Sn n) = card {1..n} * length (stabilizer n fixed_point)"
    by (simp add: ls lS m(1))
  have "int (Suc m * fact m) div int (fact m) = int (Suc m)" by simp
  also have "\<dots> = n" using n m(1) by linarith
  finally have c: "int (length (generate_Sn n)) div int (length (stabilizer n fixed_point)) = n"
    by (simp only: ls lS)
  have d: "int (length cs) = n" using cs(2) n by simp
  have e: "int (sum_list (map length cs)) = fact (nat n)" by (simp add: cs(3))
  from f(1,2,3) a b c cs(1) d e
  show "\<exists>stab orb cosets.
             compute_stabilizer (generate_Sn n) fixed_point = Inr stab
           \<and> compute_orbit (generate_Sn n) fixed_point = Inr orb
           \<and> is_subgroup stab n = Inr True
           \<and> int (length stab) = fact (nat (n - 1))
           \<and> length (generate_Sn n) = card orb * length stab
           \<and> int (length (generate_Sn n)) div int (length stab) = n
           \<and> coset_decomposition (generate_Sn n) stab = Inr cosets
           \<and> int (length cosets) = n
           \<and> int (sum_list (map length cosets)) = fact (nat n)"
    by blast
qed

theorem verify_stabilizer_true_witness:
  "(1 :: int) \<le> 3 \<and> (2 :: int) \<in> {1..3} \<and> verify_stabilizer 3 2 True = Inr True"
proof -
  have a: "(1 :: int) \<le> 3" by simp
  have b: "(2 :: int) \<in> {1..3}" by simp
  from verify_stabilizer_true [OF a b, of True] have "verify_stabilizer 3 2 True = Inr True" ..
  with a b show ?thesis by simp
qed

section \<open>Totality\<close>











end
